theory Spec2Isabelle
  imports Complex_Main "HOL-Library.Sublist" "HOL-Library.Multiset"
begin

section \<open>The phase catalogue and its configuration\<close>

text \<open>
  \<^verbatim>\<open>index.js\<close> imports the object \<^verbatim>\<open>phases\<close> from the phase module: one property per
  phase id, each value an object with (at least) the fields \<^verbatim>\<open>name\<close> and \<^verbatim>\<open>enabled\<close>.
  The catalogue itself is not part of the code under study, so it is a parameter here:
  an association list in property order, as \<^verbatim>\<open>Object.entries\<close> and \<^verbatim>\<open>Object.values\<close>
  enumerate it. Property lookup \<^verbatim>\<open>phases[phaseId]\<close> is lookup among the phases: a phase
  object is truthy, a missing property is \<^verbatim>\<open>undefined\<close>. (A key that names a property every
  object inherits, such as \<^verbatim>\<open>constructor\<close>, finds that built-in value instead; the assignment
  then lands on the built-in and on no phase, which for the catalogue is the same as a
  missing key.)
\<close>

record phase =
  name :: string
  enabled :: bool

type_synonym catalogue = "(string \<times> phase) list"

definition phase_lookup :: "catalogue \<Rightarrow> string \<Rightarrow> phase option" where
  "phase_lookup ps phaseId = map_of ps phaseId"

text \<open>\<^verbatim>\<open>phases[phaseId].enabled = enabled\<close>: an in-place update of the phase object.\<close>

definition set_enabled :: "catalogue \<Rightarrow> string \<Rightarrow> bool \<Rightarrow> catalogue" where
  "set_enabled ps phaseId en =
     map (\<lambda>(k, p). if k = phaseId then (k, p\<lparr>enabled := en\<rparr>) else (k, p)) ps"

text \<open>
  \<^verbatim>\<open>
  for (const [phaseId, enabled] of Object.entries(options.phases)) {
    if (phases[phaseId]) {
      phases[phaseId].enabled = enabled;
    }
  }
  \<close>
\<close>

fun configure_entries :: "(string \<times> bool) list \<Rightarrow> catalogue \<Rightarrow> catalogue" where
  "configure_entries [] ps = ps"
| "configure_entries ((phaseId, en) # es) ps =
     configure_entries es
       (if phase_lookup ps phaseId \<noteq> None then set_enabled ps phaseId en else ps)"

text \<open>\<^verbatim>\<open>if (options.phases) { ... }\<close>: an absent map leaves the catalogue alone.\<close>

definition configure_phases :: "(string \<times> bool) list option \<Rightarrow> catalogue \<Rightarrow> catalogue" where
  "configure_phases opt ps = (case opt of None \<Rightarrow> ps | Some es \<Rightarrow> configure_entries es ps)"

text \<open>
  \<^verbatim>\<open>Object.values(phases).filter(phase => phase.enabled)\<close>, its \<^verbatim>\<open>.length\<close>, and the
  names that the start-of-scan message joins with a comma.
\<close>

definition Object_values :: "catalogue \<Rightarrow> phase list" where
  "Object_values ps = map snd ps"

definition enabledPhases :: "catalogue \<Rightarrow> nat" where
  "enabledPhases ps = length (filter enabled (Object_values ps))"

definition enabledPhaseNames :: "catalogue \<Rightarrow> string list" where
  "enabledPhaseNames ps = map name (filter enabled (Object_values ps))"

text \<open>The flag a phase ends up with, as the options map and its old flag decide it.\<close>

definition effective_flag :: "(string \<times> bool) list \<Rightarrow> string \<times> phase \<Rightarrow> bool" where
  "effective_flag es kp = (case map_of es (fst kp) of Some v \<Rightarrow> v | None \<Rightarrow> enabled (snd kp))"

section \<open>Maps and sets of the run: insertion-ordered containers\<close>

text \<open>
  A JavaScript \<^verbatim>\<open>Map\<close> keeps one entry per key in insertion order and a \<^verbatim>\<open>Set\<close>
  keeps one copy of each element in insertion order. Both are lists here, so that
  "one entry per key" is a property to be proved of the operations and not a property
  of the type. \<^verbatim>\<open>new Map()\<close> and \<^verbatim>\<open>new Set()\<close> are the empty list.
\<close>

type_synonym 'a js_set = "'a list"
type_synonym ('k, 'v) js_map = "('k \<times> 'v) list"

definition Set_add :: "'a \<Rightarrow> 'a js_set \<Rightarrow> 'a js_set" where
  "Set_add x s = (if x \<in> set s then s else s @ [x])"

definition Map_has :: "('k, 'v) js_map \<Rightarrow> 'k \<Rightarrow> bool" where
  "Map_has m k = (k \<in> fst ` set m)"

definition Map_get :: "('k, 'v) js_map \<Rightarrow> 'k \<Rightarrow> 'v option" where
  "Map_get m k = map_of m k"

fun Map_set :: "'k \<Rightarrow> 'v \<Rightarrow> ('k, 'v) js_map \<Rightarrow> ('k, 'v) js_map" where
  "Map_set k v [] = [(k, v)]"
| "Map_set k v ((k', v') # m) = (if k' = k then (k, v) # m else (k', v') # Map_set k v m)"

definition Map_size :: "('k, 'v) js_map \<Rightarrow> nat" where
  "Map_size m = length m"

type_synonym link = string
type_synonym document = string

text \<open>
  \<^verbatim>\<open>const brokenLinksMap = new Map(); // Map of brokenLink -> Set of documents\<close>
  and
  \<^verbatim>\<open>const seoIssuesMap = new Map(); // Map of category -> Map of issue -> Set of documents\<close>
\<close>

type_synonym brokenLinksMap = "(link, document js_set) js_map"
type_synonym seoIssuesMap = "(string, (string, document js_set) js_map) js_map"

text \<open>
  Modelled from the spec: the code that records a broken link lives in the phase module,
  which is missing from the sources at hand; \<^verbatim>\<open>index.js\<close> only creates the map and hands
  it to the phases. The spec gives the recording step as "look up key, if absent create
  empty value, add to value's set", with the link as the key and the referring document
  as the element added.
\<close>

definition addBrokenLink :: "brokenLinksMap \<Rightarrow> link \<Rightarrow> document \<Rightarrow> brokenLinksMap" where
  "addBrokenLink reg l d =
     (let reg' = (if Map_has reg l then reg else Map_set l [] reg)
      in case Map_get reg' l of
           None \<Rightarrow> reg'
         | Some ds \<Rightarrow> Map_set l (Set_add d ds) reg')"

text \<open>
  Modelled from the spec: a run records findings, each a referring document and the
  broken link it holds, in whatever order the concurrent analyses reach them; the
  registry starts empty.
\<close>

definition recordFrom :: "brokenLinksMap \<Rightarrow> (document \<times> link) list \<Rightarrow> brokenLinksMap" where
  "recordFrom reg fs = foldl (\<lambda>reg (d, l). addBrokenLink reg l d) reg fs"

definition recordBrokenLinks :: "(document \<times> link) list \<Rightarrow> brokenLinksMap" where
  "recordBrokenLinks fs = recordFrom [] fs"

definition referrers :: "brokenLinksMap \<Rightarrow> link \<Rightarrow> document set" where
  "referrers reg l = (case Map_get reg l of None \<Rightarrow> {} | Some ds \<Rightarrow> set ds)"

section \<open>Strings and numbers as the report code uses them\<close>

text \<open>
  The template literal \<^verbatim>\<open>${issuesMap.size}\<close> prints a map size in decimal.
\<close>

definition digit_char :: "nat \<Rightarrow> char" where
  "digit_char d = ''0123456789'' ! d"

function digits :: "nat \<Rightarrow> string" where
  "digits n = (if n < 10 then [digit_char n] else digits (n div 10) @ [digit_char (n mod 10)])"
  by pat_completeness auto
termination
  by (relation "measure id") auto

declare digits.simps [simp del]

text \<open>
  A count read back from text is a JavaScript number: a natural number, or \<^verbatim>\<open>NaN\<close> when
  \<^verbatim>\<open>parseInt\<close> finds no digit. Adding \<^verbatim>\<open>NaN\<close> gives \<^verbatim>\<open>NaN\<close>.
\<close>

datatype number = Num nat | NaN

fun num_add :: "number \<Rightarrow> number \<Rightarrow> number" where
  "num_add (Num a) (Num b) = Num (a + b)"
| "num_add _ _ = NaN"

definition digit_val :: "char \<Rightarrow> nat option" where
  "digit_val c = map_of (zip ''0123456789'' [0, 1, 2, 3, 4, 5, 6, 7, 8, 9]) c"

text \<open>
  \<^verbatim>\<open>parseInt(count, 10)\<close> on a string that starts with neither white space nor a sign
  (here: the first piece of \<^verbatim>\<open>`${issuesMap.size} ${category}`\<close> split at blanks): the
  value of the longest prefix of decimal digits, \<^verbatim>\<open>NaN\<close> when that prefix is empty.
\<close>

definition parseInt10 :: "string \<Rightarrow> number" where
  "parseInt10 s =
     (let ds = takeWhile (\<lambda>c. digit_val c \<noteq> None) s
      in if ds = [] then NaN
         else Num (foldl (\<lambda>a c. 10 * a + (case digit_val c of Some d \<Rightarrow> d | None \<Rightarrow> 0)) 0 ds))"

text \<open>
  \<^verbatim>\<open>s.split(sep)\<close>: the pieces of \<^verbatim>\<open>s\<close> between the occurrences of \<^verbatim>\<open>sep\<close>, found from
  the left; the empty separator splits into single characters.
\<close>

fun split_str :: "string \<Rightarrow> string \<Rightarrow> string list" where
  "split_str sep [] = (if sep = [] then [] else [[]])"
| "split_str sep (x # xs) =
     (if sep = [] then [x] # split_str sep xs
      else if prefix sep (x # xs) then [] # split_str sep (drop (length sep) (x # xs))
      else (case split_str sep xs of [] \<Rightarrow> [[x]] | p # ps \<Rightarrow> (x # p) # ps))"

text \<open>\<^verbatim>\<open>parts.join(sep)\<close>\<close>

fun join_str :: "string \<Rightarrow> string list \<Rightarrow> string" where
  "join_str sep [] = []"
| "join_str sep [p] = p"
| "join_str sep (p # q # ps) = p @ sep @ join_str sep (q # ps)"

text \<open>\<^verbatim>\<open>s.startsWith(g)\<close>\<close>

definition startsWith :: "string \<Rightarrow> string \<Rightarrow> bool" where
  "startsWith s g = prefix g s"

section \<open>The console summary of \<^verbatim>\<open>generateReport\<close>\<close>

text \<open>
  \<^verbatim>\<open>
  const brokenLinkCount = brokenLinksMap.size;
  let totalSeoIssues = 0;
  const issueCategories = [];
  for (const [category, issuesMap] of seoIssuesMap.entries()) {
    totalSeoIssues += issuesMap.size;
    issueCategories.push(`${issuesMap.size} ${category}`);
  }
  \<close>
\<close>

definition brokenLinkCount :: "brokenLinksMap \<Rightarrow> nat" where
  "brokenLinkCount bl = Map_size bl"

definition totalSeoIssues :: "seoIssuesMap \<Rightarrow> nat" where
  "totalSeoIssues seo = foldl (\<lambda>total (category, issuesMap). total + Map_size issuesMap) 0 seo"

definition issueCategories :: "seoIssuesMap \<Rightarrow> string list" where
  "issueCategories seo =
     map (\<lambda>(category, issuesMap). digits (Map_size issuesMap) @ '' '' @ category) seo"

record issue =
  count :: number
  category :: string

type_synonym categoryGroups = "(string \<times> issue list) list"

text \<open>The object literal \<^verbatim>\<open>categoryGroups\<close>, its keys in the order written.\<close>

definition categoryGroups_init :: categoryGroups where
  "categoryGroups_init =
     [(''performance'', []), (''accessibility'', []), (''metadata'', []), (''semantic'', []),
      (''crawlability'', []), (''linking'', []), (''content'', []), (''privacy'', []),
      (''technical'', [])]"

definition Object_keys :: "categoryGroups \<Rightarrow> string list" where
  "Object_keys groups = map fst groups"

text \<open>\<^verbatim>\<open>categoryGroups[groupName].push(entry)\<close>\<close>

definition group_push :: "string \<Rightarrow> issue \<Rightarrow> categoryGroups \<Rightarrow> categoryGroups" where
  "group_push groupName entry groups =
     map (\<lambda>(g, issues). if g = groupName then (g, issues @ [entry]) else (g, issues)) groups"

text \<open>
  \<^verbatim>\<open>
  const [count, ...parts] = category.split(' ');
  const categoryString = parts.join(' ');
  for (const groupName of Object.keys(categoryGroups)) {
    if (categoryString.startsWith(groupName)) {
      categoryGroups[groupName].push({ count: parseInt(count, 10), category: categoryString });
      break;
    }
  }
  \<close>
  The inner loop stops at the first group name that is a prefix.
\<close>

definition sortIntoGroup :: "string \<Rightarrow> categoryGroups \<Rightarrow> categoryGroups" where
  "sortIntoGroup c groups =
     (case split_str '' '' c of
        [] \<Rightarrow> groups
      | cnt # parts \<Rightarrow>
          (let categoryString = join_str '' '' parts
           in case find (startsWith categoryString) (Object_keys groups) of
                None \<Rightarrow> groups
              | Some groupName \<Rightarrow>
                  group_push groupName \<lparr>count = parseInt10 cnt, category = categoryString\<rparr> groups))"

definition sortIntoGroups :: "string list \<Rightarrow> categoryGroups" where
  "sortIntoGroups cs = foldl (\<lambda>groups c. sortIntoGroup c groups) categoryGroups_init cs"

definition groupDisplayOrder :: "string list" where
  "groupDisplayOrder =
     [''performance'', ''accessibility'', ''metadata'', ''crawlability'', ''linking'',
      ''technical'', ''content'', ''privacy'', ''semantic'']"

text \<open>
  \<^verbatim>\<open>issues.sort((a, b) => b.count - a.count)\<close>. The sort is stable, so for a comparator
  that is an ordering its result is fixed: it is the result of inserting the elements
  one by one, each before the first element it must precede. The counts sorted here are
  parsed from map sizes and are numbers, so the comparator is an ordering. For a count
  \<^verbatim>\<open>NaN\<close> the comparator yields \<^verbatim>\<open>NaN\<close> and is no ordering; the language then leaves the
  order to the implementation, and the order this definition gives in that case is not
  meant to be the runtime's.
\<close>

definition compare_count :: "issue \<Rightarrow> issue \<Rightarrow> int" where
  "compare_count a b =
     (case (count b, count a) of (Num cb, Num ca) \<Rightarrow> int cb - int ca | _ \<Rightarrow> 0)"

fun insert_sorted :: "('a \<Rightarrow> 'a \<Rightarrow> int) \<Rightarrow> 'a \<Rightarrow> 'a list \<Rightarrow> 'a list" where
  "insert_sorted cmp x [] = [x]"
| "insert_sorted cmp x (y # ys) =
     (if cmp x y < 0 then x # y # ys else y # insert_sorted cmp x ys)"

definition Array_sort :: "('a \<Rightarrow> 'a \<Rightarrow> int) \<Rightarrow> 'a list \<Rightarrow> 'a list" where
  "Array_sort cmp xs = foldl (\<lambda>sorted x. insert_sorted cmp x sorted) [] xs"

text \<open>\<^verbatim>\<open>issues.reduce((sum, issue) => sum + issue.count, 0)\<close>\<close>

definition totalInGroup :: "issue list \<Rightarrow> number" where
  "totalInGroup issues = foldl (\<lambda>sum issue. num_add sum (count issue)) (Num 0) issues"

text \<open>\<^verbatim>\<open>category.split(': ')[1] || category\<close>: the empty string is falsy.\<close>

definition issueType :: "string \<Rightarrow> string" where
  "issueType c =
     (case split_str '': '' c of
        _ # t # _ \<Rightarrow> if t = [] then c else t
      | _ \<Rightarrow> c)"

text \<open>
  The groups that get a block in the breakdown, in the order of the loop over
  \<^verbatim>\<open>groupDisplayOrder\<close>: a group with no issue is skipped, the others come with their
  issues sorted. A name of the display order is always a key of \<^verbatim>\<open>categoryGroups\<close>.
\<close>

definition group_issues :: "categoryGroups \<Rightarrow> string \<Rightarrow> issue list" where
  "group_issues groups g = (case map_of groups g of Some issues \<Rightarrow> issues | None \<Rightarrow> [])"

definition displayedGroups :: "categoryGroups \<Rightarrow> (string \<times> issue list) list" where
  "displayedGroups groups =
     concat (map (\<lambda>g. let issues = group_issues groups g
                      in if length issues > 0 then [(g, Array_sort compare_count issues)] else [])
                 groupDisplayOrder)"

text \<open>
  The text \<^verbatim>\<open>categoriesByGroup\<close> line by line: the title, then per displayed group a header
  with the group and its total and one line per issue with its type and count. The
  decoration of the lines (emoji, capital letter, plural ending) is left to the
  renderer.
\<close>

datatype summary_line =
    BreakdownTitle
  | GroupHeader string number
  | IssueLine string number

definition group_lines :: "string \<times> issue list \<Rightarrow> summary_line list" where
  "group_lines gi =
     GroupHeader (fst gi) (totalInGroup (snd gi))
       # map (\<lambda>i. IssueLine (issueType (category i)) (count i)) (snd gi)"

definition categoriesByGroup :: "seoIssuesMap \<Rightarrow> summary_line list" where
  "categoriesByGroup seo =
     (if length (issueCategories seo) > 0
      then BreakdownTitle # concat (map group_lines (displayedGroups (sortIntoGroups (issueCategories seo))))
      else [])"

text \<open>
  Notions used to state the properties of the summary: the group a category falls into
  (the first key of \<^verbatim>\<open>categoryGroups\<close> that is a prefix of it), the entry pushed for a
  category of the registry, "counts at least as much as", and the value of a string of
  digits.
\<close>

definition groupOf :: "string \<Rightarrow> string option" where
  "groupOf c = find (startsWith c) (Object_keys categoryGroups_init)"

definition entry_of :: "string \<times> (string, document js_set) js_map \<Rightarrow> issue" where
  "entry_of ci = \<lparr>count = Num (Map_size (snd ci)), category = fst ci\<rparr>"

definition count_ge :: "issue \<Rightarrow> issue \<Rightarrow> bool" where
  "count_ge a b = (case (count a, count b) of (Num m, Num n) \<Rightarrow> n \<le> m | _ \<Rightarrow> False)"

definition dval :: "string \<Rightarrow> nat" where
  "dval ds = foldl (\<lambda>a c. 10 * a + (case digit_val c of Some d \<Rightarrow> d | None \<Rightarrow> 0)) 0 ds"

text \<open>A small issue registry: four categories, one of them outside every group.\<close>

definition seo_example :: seoIssuesMap where
  "seo_example =
     [(''semantic: h1'', [(''a'', [''/x''])]),
      (''performance: slow'', [(''a'', [''/x'']), (''b'', [''/x''])]),
      (''weird'', [(''a'', [''/x'']), (''d'', [''/x'', ''/y''])]),
      (''performance: big'', [(''a'', [''/x'']), (''b'', [''/x'']), (''c'', [''/y''])])]"

section \<open>Paths\<close>

text \<open>
  \<^verbatim>\<open>path.join\<close>, \<^verbatim>\<open>path.normalize\<close> and \<^verbatim>\<open>path.dirname\<close> of the runtime, for POSIX paths.
  Normalisation walks the pieces between slashes: an empty piece and \<^verbatim>\<open>.\<close> are dropped,
  \<^verbatim>\<open>..\<close> removes the piece before it, and where there is none it is kept for a relative
  path and dropped for an absolute one.
\<close>

definition normalize_step :: "bool \<Rightarrow> string list \<Rightarrow> string \<Rightarrow> string list" where
  "normalize_step allowAboveRoot res seg =
     (if seg = [] \<or> seg = ''.'' then res
      else if seg = ''..'' then
        (if res \<noteq> [] \<and> last res \<noteq> ''..'' then butlast res
         else if allowAboveRoot then res @ [''..''] else res)
      else res @ [seg])"

definition normalizeSegments :: "bool \<Rightarrow> string list \<Rightarrow> string list" where
  "normalizeSegments allowAboveRoot segs = foldl (normalize_step allowAboveRoot) [] segs"

definition isAbsolute :: "string \<Rightarrow> bool" where
  "isAbsolute p = (p \<noteq> [] \<and> hd p = CHR ''/'')"

definition trailingSeparator :: "string \<Rightarrow> bool" where
  "trailingSeparator p = (p \<noteq> [] \<and> last p = CHR ''/'')"

definition path_normalize :: "string \<Rightarrow> string" where
  "path_normalize p =
     (if p = [] then ''.''
      else let segs = normalizeSegments (\<not> isAbsolute p) (split_str ''/'' p)
           in if segs = [] then (if isAbsolute p then ''/'' else if trailingSeparator p then ''./'' else ''.'')
              else (if isAbsolute p then ''/'' else [])
                   @ join_str ''/'' segs
                   @ (if trailingSeparator p then ''/'' else []))"

definition path_join :: "string \<Rightarrow> string \<Rightarrow> string" where
  "path_join a b =
     (case filter (\<lambda>arg. arg \<noteq> []) [a, b] of
        [] \<Rightarrow> ''.''
      | args \<Rightarrow> path_normalize (join_str ''/'' args))"

text \<open>
  \<^verbatim>\<open>path.dirname\<close> scans from the end down to index 1: it skips trailing slashes, then the
  last piece, and cuts at the slash it meets next.
\<close>

definition path_dirname :: "string \<Rightarrow> string" where
  "path_dirname p =
     (if p = [] then ''.''
      else let r = dropWhile (\<lambda>c. c \<noteq> CHR ''/'') (dropWhile (\<lambda>c. c = CHR ''/'') (rev (tl p)))
           in if r = [] then (if isAbsolute p then ''/'' else ''.'')
              else if isAbsolute p \<and> length r = 1 then ''//''
              else take (length r) p)"

text \<open>
  The place a path names: its pieces after normalisation. The paths of the hook are
  absolute (they start with the output directory), so \<^verbatim>\<open>..\<close> never climbs above the root.
\<close>

definition path_segments :: "string \<Rightarrow> string list" where
  "path_segments p = normalizeSegments False (split_str ''/'' p)"

text \<open>A path lies inside a directory when it names a place strictly below it.\<close>

definition inside :: "string \<Rightarrow> string \<Rightarrow> bool" where
  "inside dir p = strict_prefix (path_segments dir) (path_segments p)"

section \<open>Options of the integration\<close>

text \<open>
  The two options that choose the report file; an option left out is \<^verbatim>\<open>undefined\<close>.
  \<^verbatim>\<open>
  const reportFilePath = options.reportFilePath || options.logFilePath || 'site-report.log';
  \<close>
  \<^verbatim>\<open>||\<close> takes its right operand when the left one is falsy: \<^verbatim>\<open>undefined\<close> or the empty
  string.
\<close>

record options =
  opt_reportFilePath :: "string option"
  opt_logFilePath :: "string option"
  opt_reportFormat :: "string option"
  opt_phases :: "(string \<times> bool) list option"

definition truthy :: "string option \<Rightarrow> bool" where
  "truthy v = (case v of None \<Rightarrow> False | Some s \<Rightarrow> s \<noteq> [])"

definition reportFilePath :: "options \<Rightarrow> string" where
  "reportFilePath opts =
     (case opt_reportFilePath opts of
        Some s \<Rightarrow> if s \<noteq> [] then s
                  else (case opt_logFilePath opts of
                          Some l \<Rightarrow> if l \<noteq> [] then l else ''site-report.log''
                        | None \<Rightarrow> ''site-report.log'')
      | None \<Rightarrow> (case opt_logFilePath opts of
                   Some l \<Rightarrow> if l \<noteq> [] then l else ''site-report.log''
                 | None \<Rightarrow> ''site-report.log''))"

text \<open>\<^verbatim>\<open>const absoluteReportFilePath = join(distPath, reportFilePath);\<close>\<close>

definition absoluteReportFilePath :: "string \<Rightarrow> options \<Rightarrow> string" where
  "absoluteReportFilePath distPath opts = path_join distPath (reportFilePath opts)"

text \<open>A piece of a path that names something: not empty, not \<^verbatim>\<open>.\<close>, not \<^verbatim>\<open>..\<close>.\<close>

definition proper :: "string \<Rightarrow> bool" where
  "proper seg \<longleftrightarrow> seg \<noteq> [] \<and> seg \<noteq> ''.'' \<and> seg \<noteq> ''..''"

section \<open>The file system\<close>

text \<open>
  The part of the file system the hook touches through \<^verbatim>\<open>fs.readFileSync\<close>,
  \<^verbatim>\<open>fs.existsSync\<close>, \<^verbatim>\<open>fs.mkdirSync(dir, { recursive: true })\<close> and
  \<^verbatim>\<open>fs.writeFileSync\<close>: the directories, the files with their contents, and the places
  the operating system refuses to open or create. The root is always a directory. Each
  operation either returns normally or throws a system error.
\<close>

type_synonym place = "string list"

record filesystem =
  dirs :: "place set"
  files :: "place \<rightharpoonup> string"
  noaccess :: "place set"

datatype fs_error = ENOENT | EEXIST | ENOTDIR | EISDIR | EACCES

definition is_dir :: "filesystem \<Rightarrow> place \<Rightarrow> bool" where
  "is_dir fs p = (p = [] \<or> p \<in> dirs fs)"

definition is_file :: "filesystem \<Rightarrow> place \<Rightarrow> bool" where
  "is_file fs p = (files fs p \<noteq> None)"

definition existsSync :: "filesystem \<Rightarrow> string \<Rightarrow> bool" where
  "existsSync fs path = (let p = path_segments path in is_dir fs p \<or> is_file fs p)"

definition mkdirSync_recursive :: "filesystem \<Rightarrow> string \<Rightarrow> fs_error + filesystem" where
  "mkdirSync_recursive fs path =
     (let p = path_segments path
      in if \<exists>q \<in> set (prefixes p). is_file fs q
         then Inl (if is_file fs p then EEXIST else ENOTDIR)
         else if \<exists>q \<in> set (prefixes p). \<not> is_dir fs q \<and> q \<in> noaccess fs
         then Inl EACCES
         else Inr (fs\<lparr>dirs := dirs fs \<union> set (prefixes p)\<rparr>))"

definition writeFileSync :: "filesystem \<Rightarrow> string \<Rightarrow> string \<Rightarrow> fs_error + filesystem" where
  "writeFileSync fs path data =
     (let p = path_segments path
      in if trailingSeparator path \<or> is_dir fs p then Inl EISDIR
         else if \<exists>q \<in> set (prefixes (butlast p)). is_file fs q then Inl ENOTDIR
         else if \<not> is_dir fs (butlast p) then Inl ENOENT
         else if p \<in> noaccess fs then Inl EACCES
         else Inr (fs\<lparr>files := (files fs)(p \<mapsto> data)\<rparr>))"

definition readFileSync :: "filesystem \<Rightarrow> string \<Rightarrow> fs_error + string" where
  "readFileSync fs path =
     (let p = path_segments path
      in if is_dir fs p then Inl EISDIR
         else if \<exists>q \<in> set (prefixes (butlast p)). is_file fs q then Inl ENOTDIR
         else case files fs p of
                None \<Rightarrow> Inl ENOENT
              | Some data \<Rightarrow> if p \<in> noaccess fs then Inl EACCES else Inr data)"

section \<open>\<^verbatim>\<open>generateReport\<close>\<close>

text \<open>
  What can end the hook with an exception: a failed listing of the pages, a failed read
  of a page, an exception out of the analysis of a page or out of the formatter (both
  live in modules outside the code at hand and are parameters here), and a failed
  creation of the report directory or write of the report file.
\<close>

datatype error =
    GlobError string
  | ReadError fs_error
  | PhaseError string
  | FormatError string
  | MkdirError fs_error
  | WriteError fs_error

text \<open>
  \<^verbatim>\<open>
  const endTime = Date.now();
  const elapsedTime = (endTime - options.startTime) / 1000;
  \<close>
  Time stamps are whole milliseconds. \<^verbatim>\<open>elapsedTime.toFixed(2)\<close> prints the number with
  two decimals: it takes the whole number of hundredths nearest to the magnitude and puts
  the sign in front. The quotient is held as a binary floating-point number; when the
  exact quotient lies midway between two hundredths, the rounding of that number decides
  which one is nearer, and that decision is the parameter \<open>tie\<close> (for every other
  quotient below \<open>2\<^sup>4\<^sup>3\<close> seconds the floating-point error is too small to matter). The
  result is given in hundredths.
\<close>

definition elapsedTime :: "int \<Rightarrow> int \<Rightarrow> rat" where
  "elapsedTime start end = of_int (end - start) / 1000"

definition toFixed2 :: "(rat \<Rightarrow> bool) \<Rightarrow> rat \<Rightarrow> int" where
  "toFixed2 tie x =
     (let a = \<bar>x\<bar>;
          n = \<lfloor>a * 100\<rfloor>;
          r = a * 100 - of_int n;
          m = (if r < 1 / 2 then n else if 1 / 2 < r then n + 1 else if tie a then n + 1 else n)
      in if x < 0 then - m else m)"

definition ties_up :: "rat \<Rightarrow> bool" where
  "ties_up x = True"

text \<open>
  The summary that goes to the logger, by the values put into the template:
  \<^verbatim>\<open>
  Scan completed in ${elapsedTime.toFixed(2)} seconds
  ${brokenLinkCount > 0 ? `${brokenLinkCount} broken link...` : 'No broken links detected'}
  ${totalSeoIssues > 0 ? `${totalSeoIssues} SEO issue...` : 'No SEO issues detected'}${categoriesByGroup}
  Full ${formatName} report written to: ${options.filePath}
  \<close>
  The name of the format in the last line is left out.
\<close>

datatype count_line = AllClear | Warn nat

definition count_line_of :: "nat \<Rightarrow> count_line" where
  "count_line_of n = (if n > 0 then Warn n else AllClear)"

record console_summary =
  s_elapsed :: int
  s_brokenLinks :: count_line
  s_seoIssues :: count_line
  s_categoriesByGroup :: "summary_line list"
  s_filePath :: string

definition summaryForConsole ::
  "(rat \<Rightarrow> bool) \<Rightarrow> int \<Rightarrow> int \<Rightarrow> brokenLinksMap \<Rightarrow> seoIssuesMap \<Rightarrow> string \<Rightarrow> console_summary" where
  "summaryForConsole tie start end bl seo path =
     \<lparr>s_elapsed = toFixed2 tie (elapsedTime start end),
      s_brokenLinks = count_line_of (brokenLinkCount bl),
      s_seoIssues = count_line_of (totalSeoIssues seo),
      s_categoriesByGroup = categoriesByGroup seo,
      s_filePath = path\<rparr>"

text \<open>
  \<^verbatim>\<open>
  const reportDir = path.dirname(options.filePath);
  if (!fs.existsSync(reportDir)) {
    fs.mkdirSync(reportDir, { recursive: true });
  }
  fs.writeFileSync(options.filePath, reportData, 'utf8');
  \<close>
\<close>

definition write_report :: "filesystem \<Rightarrow> string \<Rightarrow> string \<Rightarrow> error + filesystem" where
  "write_report fs path reportData =
     (let reportDir = path_dirname path
      in case (if \<not> existsSync fs reportDir then mkdirSync_recursive fs reportDir else Inr fs) of
           Inl e \<Rightarrow> Inl (MkdirError e)
         | Inr fs1 \<Rightarrow>
             (case writeFileSync fs1 path reportData of
                Inl e \<Rightarrow> Inl (WriteError e)
              | Inr fs2 \<Rightarrow> Inr fs2))"

text \<open>
  The third argument of \<^verbatim>\<open>generateReport\<close>, and what the run hands in from outside:
  the clock reading inside \<^verbatim>\<open>generateReport\<close>, the decision at rounding ties, and
  \<^verbatim>\<open>formatReport\<close>, which returns the report text or throws.
\<close>

record report_options =
  ro_filePath :: string
  ro_format :: "string option"
  ro_startTime :: int

record environment =
  env_endTime :: int
  env_tie :: "rat \<Rightarrow> bool"
  env_formatReport :: "brokenLinksMap \<Rightarrow> seoIssuesMap \<Rightarrow> report_options \<Rightarrow> string + string"

datatype log_entry =
    StartMessage nat nat "string list"
  | Progress nat nat
  | Summary console_summary
  | ReportText string

text \<open>
  \<^verbatim>\<open>generateReport(brokenLinksMap, seoIssuesMap, options, logger)\<close>: format, then either
  write the file and log the summary, or, with an empty file path, log the report text.
\<close>

definition generateReport ::
  "environment \<Rightarrow> brokenLinksMap \<Rightarrow> seoIssuesMap \<Rightarrow> report_options \<Rightarrow>
     filesystem \<times> log_entry list \<Rightarrow> error + (filesystem \<times> log_entry list)" where
  "generateReport env bl seo ro st =
     (case env_formatReport env bl seo ro of
        Inl msg \<Rightarrow> Inl (FormatError msg)
      | Inr reportData \<Rightarrow>
          if ro_filePath ro \<noteq> [] then
            (case write_report (fst st) (ro_filePath ro) reportData of
               Inl e \<Rightarrow> Inl e
             | Inr fs' \<Rightarrow>
                 Inr (fs', snd st @ [Summary (summaryForConsole (env_tie env) (ro_startTime ro)
                                      (env_endTime env) bl seo (ro_filePath ro))]))
          else Inr (fst st, snd st @ [ReportText reportData]))"

text \<open>A small file system: the output directory with one page, nothing refused.\<close>

definition fs_example :: filesystem where
  "fs_example =
     \<lparr>dirs = {[''site''], [''site'', ''dist'']},
      files = [[''site'', ''dist'', ''index.html''] \<mapsto> ''<html></html>''],
      noaccess = {}\<rparr>"

section \<open>The \<^verbatim>\<open>astro:build:done\<close> hook\<close>

text \<open>
  The hook starts one asynchronous task per page and awaits them all:
  \<^verbatim>\<open>
  const checkHtmlPromises = htmlFiles.map(async (htmlFile) => {
    const absoluteHtmlFilePath = join(distPath, htmlFile);
    const htmlContent = fs.readFileSync(absoluteHtmlFilePath, 'utf8');
    const baseUrl = normalizeHtmlFilePath(absoluteHtmlFilePath, distPath);
    ...
    await runPhases(htmlContent, seoIssuesMap, baseUrl, absoluteHtmlFilePath, distPath,
                    phaseOptions, logger);
    pagesProcessed++;
    if (totalPages > 50 && pagesProcessed % 10 === 0) { logger.info(...progress...); }
  });
  await Promise.all(checkHtmlPromises);
  generateReport(brokenLinksMap, seoIssuesMap, {...}, logger);
  \<close>
  \<^verbatim>\<open>runPhases\<close> belongs to the phase module and is a parameter. What matters of it here is
  how it behaves as an asynchronous computation over the two shared registries: it has
  finished, or it has thrown, or it runs one uninterrupted stretch that may rewrite the
  registries and then goes on as a further computation, chosen by what it found. The
  stretches of different pages interleave in any order.
\<close>

type_synonym registries = "brokenLinksMap \<times> seoIssuesMap"

datatype analysis =
    Fulfilled
  | Rejected string
  | Step "registries \<Rightarrow> registries \<times> analysis"

datatype task = Analysing analysis | TaskDone | TaskRejected

datatype stage = Awaiting | Done | Failed error

text \<open>
  What a run receives: the output directory (\<^verbatim>\<open>fileURLToPath(dir)\<close>), the awaited result of
  the page listing, the clock at the start of the scan, the file system, the options, the
  phase catalogue as the integration found it, the two registries as they are when the
  hook is called (the maps are created once, with the integration object, and the hook
  never clears them: they are empty at the first build), the two functions of the phase
  module, and the surroundings of \<^verbatim>\<open>generateReport\<close>.
\<close>

record hook_input =
  in_distPath :: string
  in_htmlFiles :: "string + string list"
  in_startTime :: int
  in_fs :: filesystem
  in_options :: options
  in_phases :: catalogue
  in_registries :: registries
  in_normalizeHtmlFilePath :: "string \<Rightarrow> string \<Rightarrow> string"
  in_runPhases :: "string \<Rightarrow> string \<Rightarrow> string \<Rightarrow> analysis"
  in_env :: environment

text \<open>
  The state of a run. \<open>rejection\<close> is the reason of the first task to fail, with which
  \<^verbatim>\<open>Promise.all\<close> rejects; \<open>observed\<close> records the registries that were handed to
  \<^verbatim>\<open>generateReport\<close>, once it has been called.
\<close>

record hook_state =
  tasks :: "task list"
  regs :: registries
  pagesProcessed :: nat
  logged :: "log_entry list"
  fsys :: filesystem
  rejection :: "error option"
  stage :: stage
  observed :: "registries option"

text \<open>
  The synchronous start of a task: the read of the page. A failed read throws inside the
  async function, so the task is rejected at once and the mapping goes on.
\<close>

definition start_task :: "hook_input \<Rightarrow> string \<Rightarrow> error + analysis" where
  "start_task inp htmlFile =
     (let absoluteHtmlFilePath = path_join (in_distPath inp) htmlFile
      in case readFileSync (in_fs inp) absoluteHtmlFilePath of
           Inl e \<Rightarrow> Inl (ReadError e)
         | Inr htmlContent \<Rightarrow>
             Inr (in_runPhases inp htmlContent
                    (in_normalizeHtmlFilePath inp absoluteHtmlFilePath (in_distPath inp))
                    absoluteHtmlFilePath))"

text \<open>
  The catalogue the hook reads: \<^verbatim>\<open>astroBrokenLinksChecker(options)\<close> has configured the
  phases from \<^verbatim>\<open>options.phases\<close> before it returned the hooks.
\<close>

definition configured_phases :: "hook_input \<Rightarrow> catalogue" where
  "configured_phases inp = configure_phases (opt_phases (in_options inp)) (in_phases inp)"

definition task_of :: "error + analysis \<Rightarrow> task" where
  "task_of r = (case r of Inl e \<Rightarrow> TaskRejected | Inr a \<Rightarrow> Analysing a)"

fun first_error :: "(error + analysis) list \<Rightarrow> error option" where
  "first_error [] = None"
| "first_error (Inl e # rs) = Some e"
| "first_error (Inr a # rs) = first_error rs"

definition hook_init :: "hook_input \<Rightarrow> hook_state" where
  "hook_init inp =
     (case in_htmlFiles inp of
        Inl msg \<Rightarrow>
          \<lparr>tasks = [], regs = in_registries inp, pagesProcessed = 0, logged = [],
           fsys = in_fs inp,
           rejection = None, stage = Failed (GlobError msg), observed = None\<rparr>
      | Inr htmlFiles \<Rightarrow>
          (let started = map (start_task inp) htmlFiles
           in \<lparr>tasks = map task_of started, regs = in_registries inp, pagesProcessed = 0,
               logged = [StartMessage (length htmlFiles) (enabledPhases (configured_phases inp))
                           (enabledPhaseNames (configured_phases inp))],
               fsys = in_fs inp, rejection = first_error started, stage = Awaiting,
               observed = None\<rparr>))"

text \<open>One stretch of the analysis of page \<open>i\<close>.\<close>

definition analyse_task :: "nat \<Rightarrow> (registries \<Rightarrow> registries \<times> analysis) \<Rightarrow> hook_state \<Rightarrow> hook_state" where
  "analyse_task i f s =
     s\<lparr>tasks := (tasks s)[i := Analysing (snd (f (regs s)))], regs := fst (f (regs s))\<rparr>"

text \<open>The code after \<^verbatim>\<open>await runPhases(...)\<close>: count the page, log progress on large sites.\<close>

definition progress_log :: "nat \<Rightarrow> nat \<Rightarrow> log_entry list" where
  "progress_log processed totalPages =
     (if totalPages > 50 \<and> processed mod 10 = 0 then [Progress processed totalPages] else [])"

definition finish_task :: "nat \<Rightarrow> hook_state \<Rightarrow> hook_state" where
  "finish_task i s =
     s\<lparr>tasks := (tasks s)[i := TaskDone],
       pagesProcessed := Suc (pagesProcessed s),
       logged := logged s @ progress_log (Suc (pagesProcessed s)) (length (tasks s))\<rparr>"

text \<open>\<^verbatim>\<open>runPhases\<close> threw: the task is rejected; the first rejection is the one kept.\<close>

definition reject_task :: "nat \<Rightarrow> string \<Rightarrow> hook_state \<Rightarrow> hook_state" where
  "reject_task i msg s =
     s\<lparr>tasks := (tasks s)[i := TaskRejected],
       rejection := (case rejection s of None \<Rightarrow> Some (PhaseError msg) | Some e \<Rightarrow> Some e)\<rparr>"

text \<open>\<^verbatim>\<open>await Promise.all(...)\<close> throws the first rejection out of the hook.\<close>

definition throw_rejection :: "error \<Rightarrow> hook_state \<Rightarrow> hook_state" where
  "throw_rejection e s = s\<lparr>stage := Failed e\<rparr>"

text \<open>
  \<^verbatim>\<open>await Promise.all(...)\<close> returns and \<^verbatim>\<open>generateReport\<close> runs, in one piece, on the
  registries as they are.
\<close>

definition report_options_of :: "hook_input \<Rightarrow> report_options" where
  "report_options_of inp =
     \<lparr>ro_filePath = absoluteReportFilePath (in_distPath inp) (in_options inp),
      ro_format = opt_reportFormat (in_options inp),
      ro_startTime = in_startTime inp\<rparr>"

definition report_step :: "hook_input \<Rightarrow> hook_state \<Rightarrow> hook_state" where
  "report_step inp s =
     (case generateReport (in_env inp) (fst (regs s)) (snd (regs s)) (report_options_of inp)
             (fsys s, logged s) of
        Inl e \<Rightarrow> s\<lparr>stage := Failed e, observed := Some (regs s)\<rparr>
      | Inr st \<Rightarrow> s\<lparr>fsys := fst st, logged := snd st, stage := Done, observed := Some (regs s)\<rparr>)"

text \<open>
  The steps of a run. \<^verbatim>\<open>Promise.all\<close> is fulfilled when every task is, and rejected as
  soon as one task is; the hook goes on past the \<^verbatim>\<open>await\<close> only in the first case. Tasks
  that are still running when the hook has failed keep running.
\<close>

inductive hook_step :: "hook_input \<Rightarrow> hook_state \<Rightarrow> hook_state \<Rightarrow> bool" for inp where
  analyse:
    "i < length (tasks s) \<Longrightarrow> tasks s ! i = Analysing (Step f) \<Longrightarrow>
     hook_step inp s (analyse_task i f s)"
| finish:
    "i < length (tasks s) \<Longrightarrow> tasks s ! i = Analysing Fulfilled \<Longrightarrow>
     hook_step inp s (finish_task i s)"
| reject:
    "i < length (tasks s) \<Longrightarrow> tasks s ! i = Analysing (Rejected msg) \<Longrightarrow>
     hook_step inp s (reject_task i msg s)"
| throw:
    "stage s = Awaiting \<Longrightarrow> rejection s = Some e \<Longrightarrow>
     hook_step inp s (throw_rejection e s)"
| report:
    "stage s = Awaiting \<Longrightarrow> \<forall>t \<in> set (tasks s). t = TaskDone \<Longrightarrow>
     hook_step inp s (report_step inp s)"

inductive hook_reach :: "hook_input \<Rightarrow> hook_state \<Rightarrow> bool" for inp where
  init: "hook_reach inp (hook_init inp)"
| step: "hook_reach inp s \<Longrightarrow> hook_step inp s s' \<Longrightarrow> hook_reach inp s'"

text \<open>An analysis that can end by throwing, now or after some stretches.\<close>

inductive can_reject :: "analysis \<Rightarrow> bool" where
  now: "can_reject (Rejected msg)"
| later: "can_reject (snd (f r)) \<Longrightarrow> can_reject (Step f)"

text \<open>
  The cause an exception out of the hook has in the input of the run: the listing failed
  with that message; the read of a listed page fails with that system error; the analysis
  of a listed page can throw; the formatter throws that message on some registries; the
  creation of the report directory, or the write of the report file, fails.
\<close>

definition may_throw :: "hook_input \<Rightarrow> bool" where
  "may_throw inp \<longleftrightarrow>
     (\<exists>htmlFiles f a. in_htmlFiles inp = Inr htmlFiles \<and> f \<in> set htmlFiles
        \<and> start_task inp f = Inr a \<and> can_reject a)"

fun error_cause :: "hook_input \<Rightarrow> error \<Rightarrow> bool" where
  "error_cause inp (GlobError msg) = (in_htmlFiles inp = Inl msg)"
| "error_cause inp (ReadError x) =
     (\<exists>htmlFiles f. in_htmlFiles inp = Inr htmlFiles \<and> f \<in> set htmlFiles
        \<and> readFileSync (in_fs inp) (path_join (in_distPath inp) f) = Inl x)"
| "error_cause inp (PhaseError msg) = may_throw inp"
| "error_cause inp (FormatError msg) =
     (\<exists>bl seo. env_formatReport (in_env inp) bl seo (report_options_of inp) = Inl msg)"
| "error_cause inp (MkdirError x) =
     (\<not> existsSync (in_fs inp) (path_dirname (ro_filePath (report_options_of inp)))
      \<and> mkdirSync_recursive (in_fs inp) (path_dirname (ro_filePath (report_options_of inp))) = Inl x)"
| "error_cause inp (WriteError x) =
     (\<exists>reportData. write_report (in_fs inp) (ro_filePath (report_options_of inp)) reportData
        = Inl (WriteError x))"

text \<open>
  Two runs over the small file system. In the first the one page is analysed in one
  stretch that records a broken link. In the second the listing also names a page that
  the operating system refuses to open.
\<close>

definition page_stretch :: "registries \<Rightarrow> registries \<times> analysis" where
  "page_stretch r = ((addBrokenLink (fst r) ''/missing'' ''/'', snd r), Fulfilled)"

definition run_example :: hook_input where
  "run_example =
     \<lparr>in_distPath = ''/site/dist/'',
      in_htmlFiles = Inr [''index.html''],
      in_startTime = 1000,
      in_fs = fs_example,
      in_options = \<lparr>opt_reportFilePath = None, opt_logFilePath = None,
                     opt_reportFormat = None,
                     opt_phases = Some [(''metadata'', False), (''bogus'', True)]\<rparr>,
      in_phases = [(''foundation'', \<lparr>name = ''Foundation'', enabled = True\<rparr>),
                   (''metadata'', \<lparr>name = ''Metadata'', enabled = True\<rparr>)],
      in_registries = ([], []),
      in_normalizeHtmlFilePath = (\<lambda>p d. ''/''),
      in_runPhases = (\<lambda>htmlContent baseUrl p. Step page_stretch),
      in_env = \<lparr>env_endTime = 2230, env_tie = ties_up,
                 env_formatReport = (\<lambda>bl seo ro. Inr ''report'')\<rparr>\<rparr>"

definition run_unreadable :: hook_input where
  "run_unreadable =
     run_example
       \<lparr>in_htmlFiles := Inr [''index.html'', ''private.html''],
        in_fs := fs_example
          \<lparr>files := (files fs_example)([''site'', ''dist'', ''private.html''] \<mapsto> ''<html></html>''),
           noaccess := {[''site'', ''dist'', ''private.html'']}\<rparr>\<rparr>"

text \<open>
  What holds of every state of a run, for the proof of the outcome: the file system is
  untouched until the report is written, a rejection and a failure have their cause in
  the input, an analysis that can throw stems from a page whose analysis can throw, and a
  finished run has all tasks done, the report file written and the summary logged.
\<close>

definition hook_inv :: "hook_input \<Rightarrow> hook_state \<Rightarrow> bool" where
  "hook_inv inp s \<longleftrightarrow>
     (stage s \<noteq> Done \<longrightarrow> fsys s = in_fs inp)
     \<and> (\<forall>e. rejection s = Some e \<longrightarrow> error_cause inp e)
     \<and> (\<forall>a. Analysing a \<in> set (tasks s) \<longrightarrow> can_reject a \<longrightarrow> may_throw inp)
     \<and> (\<forall>e. stage s = Failed e \<longrightarrow> error_cause inp e)
     \<and> (stage s = Done \<longrightarrow>
          (\<forall>t \<in> set (tasks s). t = TaskDone)
          \<and> (\<exists>reportData sm.
                env_formatReport (in_env inp) (fst (regs s)) (snd (regs s)) (report_options_of inp)
                  = Inr reportData
                \<and> files (fsys s) (path_segments (ro_filePath (report_options_of inp)))
                  = Some reportData
                \<and> Summary sm \<in> set (logged s)))"

section \<open>Properties of the phase configuration\<close>

lemma set_enabled_keys: "map fst (set_enabled ps k en) = map fst ps"
  by (induction ps) (auto simp: set_enabled_def)

lemma set_enabled_key_set: "fst ` set (set_enabled ps k en) = fst ` set ps"
  using set_enabled_keys[of ps k en] by (metis set_map)

lemma phase_lookup_None_iff: "phase_lookup ps k = None \<longleftrightarrow> k \<notin> fst ` set ps"
  by (simp add: phase_lookup_def map_of_eq_None_iff)

lemma configure_entries_filter:
  "configure_entries (filter (\<lambda>(k, v). k \<in> fst ` set ps) es) ps = configure_entries es ps"
proof (induction es arbitrary: ps)
  case Nil show ?case by simp
next
  case (Cons e es)
  obtain phaseId en where e: "e = (phaseId, en)" by (cases e)
  show ?case
  proof (cases "phaseId \<in> fst ` set ps")
    case True
    then have l: "phase_lookup ps phaseId \<noteq> None" by (simp add: phase_lookup_None_iff)
    from Cons[of "set_enabled ps phaseId en"] True l show ?thesis
      by (simp add: e set_enabled_key_set)
  next
    case False
    then have l: "phase_lookup ps phaseId = None" by (simp add: phase_lookup_None_iff)
    from Cons[of ps] False l show ?thesis by (simp add: e)
  qed
qed

lemma set_enabled_pointwise:
  "set_enabled ps k en =
     map (\<lambda>kp. (fst kp, (snd kp)\<lparr>enabled := if fst kp = k then en else enabled (snd kp)\<rparr>)) ps"
  by (induction ps) (auto simp: set_enabled_def)

lemma configure_entries_pointwise:
  "distinct (map fst es) \<Longrightarrow>
   configure_entries es ps =
     map (\<lambda>kp. (fst kp, (snd kp)\<lparr>enabled := effective_flag es kp\<rparr>)) ps"
proof (induction es arbitrary: ps)
  case Nil
  show ?case by (simp add: effective_flag_def map_idI)
next
  case (Cons e es)
  obtain phaseId en where e: "e = (phaseId, en)" by (cases e)
  from Cons.prems have d: "distinct (map fst es)" and n: "phaseId \<notin> fst ` set es"
    by (auto simp: e)
  have mo: "map_of es phaseId = None" using n by (simp add: map_of_eq_None_iff)
  show ?case
  proof (cases "phase_lookup ps phaseId \<noteq> None")
    case True
    from Cons.IH[OF d, of "set_enabled ps phaseId en"] True show ?thesis
      by (auto simp: e set_enabled_pointwise effective_flag_def mo split: option.splits)
  next
    case False
    then have "phaseId \<notin> fst ` set ps" by (simp add: phase_lookup_None_iff)
    then have ne: "\<And>kp. kp \<in> set ps \<Longrightarrow> fst kp \<noteq> phaseId" by auto
    from Cons.IH[OF d, of ps] False show ?thesis
      by (auto simp: e effective_flag_def ne split: option.splits)
  qed
qed

text \<open>
  Claim C4. The options map is an object, so its keys are distinct. Configuring the
  catalogue is a total function with no error branch; the entries whose key is not a
  phase id of the catalogue can be dropped without changing the result, no phase is added
  or removed, and every phase ends with exactly the flag the map gives for its own id,
  or with its old flag when the map has no entry for it.
\<close>

theorem configure_phases_unknown_ignored:
  assumes "distinct (map fst es)"
  shows "configure_phases (Some es) ps =
           configure_phases (Some (filter (\<lambda>(k, v). k \<in> fst ` set ps) es)) ps
       \<and> configure_phases (Some es) ps =
           map (\<lambda>kp. (fst kp, (snd kp)\<lparr>enabled := effective_flag es kp\<rparr>)) ps"
proof -
  have a: "configure_phases (Some es) ps =
           configure_phases (Some (filter (\<lambda>(k, v). k \<in> fst ` set ps) es)) ps"
    by (simp add: configure_phases_def configure_entries_filter)
  have b: "configure_phases (Some es) ps =
           map (\<lambda>kp. (fst kp, (snd kp)\<lparr>enabled := effective_flag es kp\<rparr>)) ps"
    using assms by (simp add: configure_phases_def configure_entries_pointwise)
  from a b show ?thesis by blast
qed

theorem configure_phases_unknown_ignored_witness:
  "distinct (map fst [(''metadata'', False), (''bogus'', False)])
   \<and> configure_phases (Some [(''metadata'', False), (''bogus'', False)])
        [(''foundation'', \<lparr>name = ''Foundation'', enabled = True\<rparr>),
         (''metadata'', \<lparr>name = ''Metadata'', enabled = True\<rparr>)]
     = configure_phases (Some [(''metadata'', False)])
        [(''foundation'', \<lparr>name = ''Foundation'', enabled = True\<rparr>),
         (''metadata'', \<lparr>name = ''Metadata'', enabled = True\<rparr>)]
   \<and> configure_phases (Some [(''metadata'', False), (''bogus'', False)])
        [(''foundation'', \<lparr>name = ''Foundation'', enabled = True\<rparr>),
         (''metadata'', \<lparr>name = ''Metadata'', enabled = True\<rparr>)]
     = [(''foundation'', \<lparr>name = ''Foundation'', enabled = True\<rparr>),
        (''metadata'', \<lparr>name = ''Metadata'', enabled = False\<rparr>)]"
proof -
  have h: "distinct (map fst [(''metadata'', False), (''bogus'', False)])" by simp
  show ?thesis
    using h configure_phases_unknown_ignored[OF h, of
        "[(''foundation'', \<lparr>name = ''Foundation'', enabled = True\<rparr>),
          (''metadata'', \<lparr>name = ''Metadata'', enabled = True\<rparr>)]"]
    by (simp add: effective_flag_def configure_phases_def phase_lookup_def set_enabled_def)
qed

lemma enabledPhaseNames_configured:
  "distinct (map fst es) \<Longrightarrow>
   enabledPhaseNames (configure_entries es ps) = map (name \<circ> snd) (filter (effective_flag es) ps)"
  by (simp add: configure_entries_pointwise enabledPhaseNames_def Object_values_def
        filter_map comp_def)

section \<open>Properties of the registries\<close>

lemma Map_set_keys:
  "map fst (Map_set k v m) = (if k \<in> fst ` set m then map fst m else map fst m @ [k])"
proof (induction m)
  case Nil show ?case by simp
next
  case (Cons e m)
  obtain k' v' where e: "e = (k', v')" by (cases e)
  show ?case using Cons by (cases "k' = k") (simp_all add: e)
qed

lemma Map_set_key_set: "fst ` set (Map_set k v m) = insert k (fst ` set m)"
proof -
  have "set (map fst (Map_set k v m)) = insert k (set (map fst m))"
    by (auto simp: Map_set_keys)
  then show ?thesis by simp
qed

lemma Map_set_distinct: "distinct (map fst m) \<Longrightarrow> distinct (map fst (Map_set k v m))"
  by (simp add: Map_set_keys)

lemma map_of_Map_set: "map_of (Map_set k v m) = (map_of m)(k \<mapsto> v)"
  by (induction m) (auto simp: fun_eq_iff)

lemma Map_get_Map_set: "Map_get (Map_set k v m) k' = (if k' = k then Some v else Map_get m k')"
  by (simp add: Map_get_def map_of_Map_set)

lemma Map_has_iff: "Map_has m k \<longleftrightarrow> Map_get m k \<noteq> None"
  by (simp add: Map_has_def Map_get_def map_of_eq_None_iff)

lemma addBrokenLink_eq:
  "addBrokenLink reg l d =
     (case Map_get reg l of
        None \<Rightarrow> Map_set l [d] (Map_set l [] reg)
      | Some ds \<Rightarrow> Map_set l (Set_add d ds) reg)"
  by (auto simp: addBrokenLink_def Let_def Map_has_iff Map_get_Map_set Set_add_def
        split: option.splits)

lemma addBrokenLink_keys:
  "fst ` set (addBrokenLink reg l d) = insert l (fst ` set reg)"
  by (simp add: addBrokenLink_eq Map_set_key_set split: option.splits)

lemma addBrokenLink_distinct:
  "distinct (map fst reg) \<Longrightarrow> distinct (map fst (addBrokenLink reg l d))"
  by (simp add: addBrokenLink_eq Map_set_distinct split: option.splits)

lemma set_Set_add: "set (Set_add x s) = insert x (set s)"
  by (auto simp: Set_add_def)

lemma distinct_Set_add: "distinct s \<Longrightarrow> distinct (Set_add x s)"
  by (simp add: Set_add_def)

lemma referrers_addBrokenLink:
  "referrers (addBrokenLink reg l d) l' =
     (if l' = l then insert d (referrers reg l) else referrers reg l')"
  by (auto simp: referrers_def addBrokenLink_eq Map_get_Map_set set_Set_add split: option.splits)

lemma values_distinct_Map_set:
  "\<forall>(k, ds) \<in> set m. distinct ds \<Longrightarrow> distinct v \<Longrightarrow> \<forall>(k, ds) \<in> set (Map_set l v m). distinct ds"
  by (induction m) (auto split: if_splits)

lemma in_set_Map_get: "(k, v) \<in> set m \<Longrightarrow> distinct (map fst m) \<Longrightarrow> Map_get m k = Some v"
  by (simp add: Map_get_def)

lemma Map_get_in_set: "Map_get m k = Some v \<Longrightarrow> (k, v) \<in> set m"
  by (simp add: Map_get_def map_of_SomeD)

lemma addBrokenLink_values_distinct:
  assumes "\<forall>(k, ds) \<in> set reg. distinct ds"
  shows "\<forall>(k, ds) \<in> set (addBrokenLink reg l d). distinct ds"
proof (cases "Map_get reg l")
  case None
  have "\<forall>(k, ds) \<in> set (Map_set l [] reg). distinct ds"
    using assms by (rule values_distinct_Map_set) simp
  then have "\<forall>(k, ds) \<in> set (Map_set l [d] (Map_set l [] reg)). distinct ds"
    by (rule values_distinct_Map_set) simp
  then show ?thesis by (simp add: addBrokenLink_eq None)
next
  case (Some ds)
  then have "distinct ds" using assms Map_get_in_set[OF Some] by auto
  then have "distinct (Set_add d ds)" by (rule distinct_Set_add)
  with assms have "\<forall>(k, ds) \<in> set (Map_set l (Set_add d ds) reg). distinct ds"
    by (rule values_distinct_Map_set)
  then show ?thesis by (simp add: addBrokenLink_eq Some)
qed

lemma recordFrom_inv:
  "distinct (map fst reg) \<Longrightarrow> \<forall>(k, ds) \<in> set reg. distinct ds \<Longrightarrow>
   distinct (map fst (recordFrom reg fs)) \<and> (\<forall>(k, ds) \<in> set (recordFrom reg fs). distinct ds)
   \<and> fst ` set (recordFrom reg fs) = fst ` set reg \<union> snd ` set fs
   \<and> (\<forall>l. referrers (recordFrom reg fs) l = referrers reg l \<union> {d. (d, l) \<in> set fs})"
proof (induction fs arbitrary: reg)
  case Nil
  then show ?case by (simp add: recordFrom_def)
next
  case (Cons f fs)
  obtain d l where f: "f = (d, l)" by (cases f)
  have step: "recordFrom reg (f # fs) = recordFrom (addBrokenLink reg l d) fs"
    by (simp add: recordFrom_def f)
  note IH = Cons.IH[OF addBrokenLink_distinct[OF Cons.prems(1)]
      addBrokenLink_values_distinct[OF Cons.prems(2)], of l d]
  show ?case
    unfolding step using IH
    by (auto simp: addBrokenLink_keys referrers_addBrokenLink f)
qed

text \<open>
  Claim C1. Whatever findings a run records and in whatever order, the registry has each
  link as a key at most once, its keys are exactly the links with a finding, every
  referrer set holds each document once, and the referrer set of a link holds exactly
  the documents recorded with it. Two runs that record the same findings, in any order
  and any number of times each, end with the same keys and the same referrer sets.
\<close>

theorem broken_link_registry_dedup:
  "distinct (map fst (recordBrokenLinks fs))
   \<and> (\<forall>(l, ds) \<in> set (recordBrokenLinks fs). distinct ds)
   \<and> fst ` set (recordBrokenLinks fs) = snd ` set fs
   \<and> (\<forall>l. referrers (recordBrokenLinks fs) l = {d. (d, l) \<in> set fs})
   \<and> (set fs' = set fs \<longrightarrow>
        fst ` set (recordBrokenLinks fs') = fst ` set (recordBrokenLinks fs)
        \<and> (\<forall>l. referrers (recordBrokenLinks fs') l = referrers (recordBrokenLinks fs) l))"
proof -
  have e: "distinct (map fst ([] :: brokenLinksMap))"
    "\<forall>(k, ds) \<in> set ([] :: brokenLinksMap). distinct ds"
    by simp_all
  have r: "referrers [] l = {}" for l
    by (simp add: referrers_def Map_get_def)
  have a: "distinct (map fst (recordBrokenLinks gs))
        \<and> (\<forall>(l, ds) \<in> set (recordBrokenLinks gs). distinct ds)
        \<and> fst ` set (recordBrokenLinks gs) = snd ` set gs
        \<and> (\<forall>l. referrers (recordBrokenLinks gs) l = {d. (d, l) \<in> set gs})" for gs
    using recordFrom_inv[OF e, of gs] by (simp add: recordBrokenLinks_def r)
  from a[of fs] a[of fs'] show ?thesis by simp
qed

theorem broken_link_registry_dedup_witness:
  "set [(''/b'', ''/missing''), (''/a'', ''/missing'')] =
     set [(''/a'', ''/missing''), (''/b'', ''/missing''), (''/a'', ''/missing'')]
   \<and> recordBrokenLinks [(''/a'', ''/missing''), (''/b'', ''/missing''), (''/a'', ''/missing'')]
       = [(''/missing'', [''/a'', ''/b''])]
   \<and> referrers (recordBrokenLinks [(''/b'', ''/missing''), (''/a'', ''/missing'')]) ''/missing''
       = {''/a'', ''/b''}"
proof -
  have h: "set [(''/b'', ''/missing''), (''/a'', ''/missing'')] =
     set [(''/a'', ''/missing''), (''/b'', ''/missing''), (''/a'', ''/missing'')]"
    by auto
  have v: "recordBrokenLinks [(''/a'', ''/missing''), (''/b'', ''/missing''), (''/a'', ''/missing'')]
       = [(''/missing'', [''/a'', ''/b''])]"
    by (simp add: recordBrokenLinks_def recordFrom_def addBrokenLink_def Map_has_def
          Map_get_def Set_add_def)
  have "referrers (recordBrokenLinks [(''/b'', ''/missing''), (''/a'', ''/missing'')]) ''/missing''
       = {''/a'', ''/b''}"
    using broken_link_registry_dedup[of
        "[(''/a'', ''/missing''), (''/b'', ''/missing''), (''/a'', ''/missing'')]"
        "[(''/b'', ''/missing''), (''/a'', ''/missing'')]"] h
    by auto
  with h v show ?thesis by blast
qed

section \<open>Properties of the console summary\<close>

lemma digit_char_val: "d < 10 \<Longrightarrow> digit_val (digit_char d) = Some d"
proof -
  assume "d < 10"
  then have "d \<in> {0,1,2,3,4,5,6,7,8,9}" by auto
  then show ?thesis by (auto simp: digit_char_def digit_val_def)
qed

lemma digits_all_digit: "c \<in> set (digits n) \<Longrightarrow> digit_val c \<noteq> None"
proof (induction n rule: digits.induct)
  case (1 n)
  show ?case
  proof (cases "n < 10")
    case True
    with 1(2) show ?thesis by (subst (asm) digits.simps) (simp add: digit_char_val)
  next
    case False
    have m: "n mod 10 < 10" by simp
    from 1(2) False have "c \<in> set (digits (n div 10)) \<or> c = digit_char (n mod 10)"
      by (subst (asm) digits.simps) auto
    with False 1(1) show ?thesis
      by (auto simp: digit_char_val[OF m])
  qed
qed

lemma digits_no_blank: "CHR '' '' \<notin> set (digits n)"
  using digits_all_digit[of "CHR '' ''" n] by (auto simp: digit_val_def)

lemma digits_nonempty: "digits n \<noteq> []"
  by (subst digits.simps) simp

lemma dval_digits: "dval (digits n) = n"
proof (induction n rule: digits.induct)
  case (1 n)
  show ?case
  proof (cases "n < 10")
    case True
    then show ?thesis by (subst digits.simps) (simp add: dval_def digit_char_val)
  next
    case False
    have m: "n mod 10 < 10" by simp
    from False 1 have "dval (digits (n div 10)) = n div 10" by simp
    with False show ?thesis
      by (subst digits.simps) (simp add: dval_def digit_char_val[OF m])
  qed
qed

lemma parseInt10_digits: "parseInt10 (digits n) = Num n"
proof -
  have tw: "takeWhile (\<lambda>c. digit_val c \<noteq> None) (digits n) = digits n"
    by (rule takeWhile_eq_all_conv[THEN iffD2]) (auto dest: digits_all_digit)
  show ?thesis
    unfolding parseInt10_def tw Let_def
    using dval_digits[of n] by (simp add: digits_nonempty dval_def)
qed

lemma split_str_nonempty: "sep \<noteq> [] \<Longrightarrow> split_str sep s \<noteq> []"
  by (induction sep s rule: split_str.induct) (auto split: list.splits)

lemma split_blank_Cons:
  "split_str '' '' (x # xs) =
     (if x = CHR '' '' then [] # split_str '' '' xs
      else (case split_str '' '' xs of [] \<Rightarrow> [[x]] | p # ps \<Rightarrow> (x # p) # ps))"
  by simp

lemma split_blank_prefix:
  "CHR '' '' \<notin> set ds \<Longrightarrow> split_str '' '' (ds @ '' '' @ c) = ds # split_str '' '' c"
proof (induction ds)
  case Nil
  show ?case by simp
next
  case (Cons d ds)
  then have "d \<noteq> CHR '' ''" and "CHR '' '' \<notin> set ds" by auto
  with Cons.IH show ?case by (simp only: append_Cons split_blank_Cons) simp
qed

lemma join_split_blank: "join_str '' '' (split_str '' '' s) = s"
proof (induction s)
  case Nil show ?case by simp
next
  case (Cons x xs)
  obtain p ps where sp: "split_str '' '' xs = p # ps"
    using split_str_nonempty[of "'' ''" xs] by (cases "split_str '' '' xs") auto
  show ?case
  proof (cases "x = CHR '' ''")
    case True
    with Cons sp show ?thesis by (simp only: split_blank_Cons) simp
  next
    case False
    with Cons sp show ?thesis
      by (simp only: split_blank_Cons) (cases ps; simp)
  qed
qed

lemma split_blank_prefix':
  "CHR '' '' \<notin> set ds \<Longrightarrow> split_str '' '' (ds @ CHR '' '' # c) = ds # split_str '' '' c"
  using split_blank_prefix[of ds c] by simp

lemma sortIntoGroup_encoded:
  "sortIntoGroup (digits n @ CHR '' '' # c) groups =
     (case find (startsWith c) (Object_keys groups) of
        None \<Rightarrow> groups
      | Some g \<Rightarrow> group_push g \<lparr>count = Num n, category = c\<rparr> groups)"
  by (simp only: sortIntoGroup_def split_blank_prefix'[OF digits_no_blank] list.case
        join_split_blank Let_def parseInt10_digits)

lemma group_push_keys: "map fst (group_push g e groups) = map fst groups"
  by (induction groups) (auto simp: group_push_def)

lemma map_of_group_push:
  "map_of (group_push g' e groups) g =
     (if g = g' then map_option (\<lambda>v. v @ [e]) (map_of groups g) else map_of groups g)"
  by (induction groups) (auto simp: group_push_def)

lemma group_issues_push:
  "group_issues (group_push g' e groups) g =
     (if g = g' \<and> g \<in> fst ` set groups then group_issues groups g @ [e]
      else group_issues groups g)"
proof (cases "map_of groups g")
  case None
  then have "g \<notin> fst ` set groups" by (simp add: map_of_eq_None_iff)
  with None show ?thesis by (auto simp: group_issues_def map_of_group_push)
next
  case (Some v)
  then have "g \<in> fst ` set groups" by (metis map_of_eq_None_iff option.distinct(1))
  with Some show ?thesis by (auto simp: group_issues_def map_of_group_push)
qed

lemma find_Some_mem: "find P xs = Some x \<Longrightarrow> x \<in> set xs"
  by (induction xs) (auto split: if_splits)

lemma sortIntoGroup_keys: "map fst (sortIntoGroup c groups) = map fst groups"
  by (auto simp: sortIntoGroup_def Let_def group_push_keys split: list.splits option.splits)

lemma foldl_groups:
  "group_issues (foldl (\<lambda>groups c. sortIntoGroup c groups) groups (issueCategories seo)) g =
     group_issues groups g
       @ map entry_of (filter (\<lambda>ci. find (startsWith (fst ci)) (map fst groups) = Some g) seo)"
proof (induction seo arbitrary: groups)
  case Nil
  show ?case by (simp add: issueCategories_def)
next
  case (Cons ci seo)
  obtain c im where ci: "ci = (c, im)" by (cases ci)
  let ?gr = "sortIntoGroup (digits (Map_size im) @ CHR '' '' # c) groups"
  have k: "map fst ?gr = map fst groups" by (rule sortIntoGroup_keys)
  have st: "foldl (\<lambda>groups c. sortIntoGroup c groups) groups (issueCategories (ci # seo)) =
        foldl (\<lambda>groups c. sortIntoGroup c groups) ?gr (issueCategories seo)"
    by (simp add: issueCategories_def ci)
  have one: "group_issues ?gr g =
       group_issues groups g @ (if find (startsWith c) (map fst groups) = Some g then [entry_of ci] else [])"
  proof (cases "find (startsWith c) (map fst groups)")
    case None
    then show ?thesis by (simp add: sortIntoGroup_encoded Object_keys_def)
  next
    case (Some g')
    then have "g' \<in> fst ` set groups" using find_Some_mem[OF Some] by simp
    with Some show ?thesis
      by (auto simp: sortIntoGroup_encoded Object_keys_def group_issues_push entry_of_def ci)
  qed
  show ?case
    unfolding st Cons.IH[of ?gr] k one by (simp add: ci)
qed

lemma group_issues_init: "group_issues categoryGroups_init g = []"
  by (simp add: group_issues_def categoryGroups_init_def)

lemma sortIntoGroups_issues:
  "group_issues (sortIntoGroups (issueCategories seo)) g =
     map entry_of (filter (\<lambda>ci. groupOf (fst ci) = Some g) seo)"
  unfolding sortIntoGroups_def foldl_groups group_issues_init groupOf_def Object_keys_def
  by simp

lemma insert_sorted_set: "set (insert_sorted cmp x xs) = insert x (set xs)"
  by (induction xs) auto

lemma insert_sorted_length: "length (insert_sorted cmp x xs) = Suc (length xs)"
  by (induction xs) auto

lemma Array_sort_gen:
  "set (foldl (\<lambda>sorted x. insert_sorted cmp x sorted) acc xs) = set acc \<union> set xs
   \<and> length (foldl (\<lambda>sorted x. insert_sorted cmp x sorted) acc xs) = length acc + length xs"
  by (induction xs arbitrary: acc) (auto simp: insert_sorted_set insert_sorted_length)

lemma Array_sort_set: "set (Array_sort cmp xs) = set xs"
  by (simp add: Array_sort_def Array_sort_gen)

lemma Array_sort_length: "length (Array_sort cmp xs) = length xs"
  by (simp add: Array_sort_def Array_sort_gen)

lemma insert_sorted_desc:
  assumes "sorted_wrt count_ge xs" and "\<forall>y \<in> set (x # xs). count y \<noteq> NaN"
  shows "sorted_wrt count_ge (insert_sorted compare_count x xs)"
  using assms
proof (induction xs)
  case Nil
  show ?case by simp
next
  case (Cons y ys)
  obtain m where m: "count x = Num m" using Cons.prems(2) by (cases "count x") auto
  obtain n where n: "count y = Num n" using Cons.prems(2) by (cases "count y") auto
  show ?case
  proof (cases "compare_count x y < 0")
    case True
    then have xy: "count_ge x y" by (simp add: count_ge_def compare_count_def m n)
    have "\<forall>z \<in> set ys. count_ge x z"
    proof
      fix z assume z: "z \<in> set ys"
      then have "count_ge y z" using Cons.prems(1) by simp
      with xy show "count_ge x z"
        by (auto simp: count_ge_def m n split: number.splits)
    qed
    with True xy Cons.prems(1) show ?thesis by simp
  next
    case False
    then have yx: "count_ge y x" by (simp add: count_ge_def compare_count_def m n)
    have "sorted_wrt count_ge (insert_sorted compare_count x ys)"
      using Cons by simp
    with False yx Cons.prems(1) show ?thesis
      by (auto simp: insert_sorted_set)
  qed
qed

lemma Array_sort_desc_gen:
  "sorted_wrt count_ge acc \<Longrightarrow> \<forall>y \<in> set acc \<union> set xs. count y \<noteq> NaN \<Longrightarrow>
   sorted_wrt count_ge (foldl (\<lambda>sorted x. insert_sorted compare_count x sorted) acc xs)"
proof (induction xs arbitrary: acc)
  case Nil
  then show ?case by simp
next
  case (Cons x xs)
  have "sorted_wrt count_ge (insert_sorted compare_count x acc)"
    using Cons.prems by (intro insert_sorted_desc) auto
  moreover have "\<forall>y \<in> set (insert_sorted compare_count x acc) \<union> set xs. count y \<noteq> NaN"
    using Cons.prems(2) by (auto simp: insert_sorted_set)
  ultimately show ?case using Cons.IH by simp
qed

lemma Array_sort_desc:
  "\<forall>y \<in> set xs. count y \<noteq> NaN \<Longrightarrow> sorted_wrt count_ge (Array_sort compare_count xs)"
  unfolding Array_sort_def by (rule Array_sort_desc_gen) auto

lemma displayedGroups_fst:
  "map fst (displayedGroups groups) = filter (\<lambda>g. group_issues groups g \<noteq> []) groupDisplayOrder"
proof -
  have "map fst (concat (map (\<lambda>g. let issues = group_issues groups g
                      in if length issues > 0 then [(g, Array_sort compare_count issues)] else []) gs))
        = filter (\<lambda>g. group_issues groups g \<noteq> []) gs" for gs
    by (induction gs) (auto simp: Let_def)
  then show ?thesis by (simp add: displayedGroups_def)
qed

lemma displayedGroups_mem:
  "(g, issues) \<in> set (displayedGroups groups) \<Longrightarrow>
     g \<in> set groupDisplayOrder \<and> issues = Array_sort compare_count (group_issues groups g)"
  by (auto simp: displayedGroups_def Let_def split: if_splits)

lemma displayedGroups_cong:
  "(\<And>g. g \<in> set groupDisplayOrder \<Longrightarrow> group_issues groups g = group_issues groups' g) \<Longrightarrow>
   displayedGroups groups = displayedGroups groups'"
  unfolding displayedGroups_def by (intro arg_cong[where f = concat] map_cong) (auto simp: Let_def)

lemma totalSeoIssues_sum: "totalSeoIssues seo = sum_list (map (\<lambda>ci. Map_size (snd ci)) seo)"
proof -
  have "foldl (\<lambda>total (category, issuesMap). total + Map_size issuesMap) a seo
        = a + sum_list (map (\<lambda>ci. Map_size (snd ci)) seo)" for a
    by (induction seo arbitrary: a) (auto simp: case_prod_unfold)
  from this[of 0] show ?thesis by (simp add: totalSeoIssues_def)
qed

section \<open>Properties of the report path\<close>

lemma split1_Cons:
  "split_str [c] (x # xs) =
     (if x = c then [] # split_str [c] xs
      else (case split_str [c] xs of [] \<Rightarrow> [[x]] | p # ps \<Rightarrow> (x # p) # ps))"
  by simp

lemma split1_Nil: "split_str [c] [] = [[]]"
  by simp

lemma split1_nonempty: "split_str [c] s \<noteq> []"
  by (rule split_str_nonempty) simp

lemma split1_append:
  "split_str [c] (a @ c # b) = split_str [c] a @ split_str [c] b"
proof (induction a)
  case Nil
  show ?case by (simp only: append_Nil split1_Cons split1_Nil) simp
next
  case (Cons x a)
  obtain p ps where sp: "split_str [c] a = p # ps"
    using split1_nonempty[of c a] by (cases "split_str [c] a") auto
  show ?case
  proof (cases "x = c")
    case True
    with Cons show ?thesis by (simp only: append_Cons split1_Cons) simp
  next
    case False
    with Cons sp show ?thesis by (simp only: append_Cons split1_Cons) simp
  qed
qed

lemma split1_piece: "c \<notin> set p \<Longrightarrow> split_str [c] p = [p]"
proof (induction p)
  case Nil show ?case by simp
next
  case (Cons x p)
  then have "x \<noteq> c" "split_str [c] p = [p]" by auto
  then show ?case by (simp only: split1_Cons) simp
qed

lemma split1_join:
  "ps \<noteq> [] \<Longrightarrow> \<forall>p \<in> set ps. c \<notin> set p \<Longrightarrow> split_str [c] (join_str [c] ps) = ps"
proof (induction ps)
  case Nil then show ?case by simp
next
  case (Cons p ps)
  have sp: "split_str [c] p = [p]" using Cons.prems by (simp add: split1_piece del: split_str.simps)
  show ?case
  proof (cases ps)
    case Nil
    with sp show ?thesis by (simp del: split_str.simps)
  next
    case (Cons q qs)
    have j: "join_str [c] (p # ps) = p @ c # join_str [c] ps" by (simp add: Cons)
    have "split_str [c] (join_str [c] ps) = ps" using Cons.IH Cons.prems Cons by simp
    with sp show ?thesis by (simp only: j split1_append) simp
  qed
qed

lemma split1_pieces: "p \<in> set (split_str [c] s) \<Longrightarrow> c \<notin> set p"
proof (induction s arbitrary: p)
  case Nil then show ?case by simp
next
  case (Cons x s)
  obtain q qs where sp: "split_str [c] s = q # qs"
    using split1_nonempty[of c s] by (cases "split_str [c] s") auto
  show ?case
  proof (cases "x = c")
    case True
    with Cons show ?thesis by (simp only: split1_Cons) (auto split: if_splits)
  next
    case False
    from Cons.prems False sp have "p = x # q \<or> p \<in> set qs"
      by (simp only: split1_Cons) auto
    with Cons.IH[of q] Cons.IH[of p] sp False show ?thesis by auto
  qed
qed

lemma foldl_step_no_dotdot:
  "''..'' \<notin> set segs \<Longrightarrow>
   foldl (normalize_step b) acc segs = acc @ filter proper segs"
  by (induction segs arbitrary: acc) (auto simp: normalize_step_def proper_def)

lemma normalizeSegments_proper: "seg \<in> set (foldl (normalize_step False) acc segs) \<Longrightarrow>
   seg \<in> set acc \<or> (seg \<in> set segs \<and> proper seg)"
proof (induction segs arbitrary: acc)
  case Nil then show ?case by simp
next
  case (Cons s segs)
  from Cons.IH[OF Cons.prems[simplified]]
  show ?case
    by (auto simp: normalize_step_def proper_def split: if_splits dest: in_set_butlastD)
qed

lemma path_segments_proper: "seg \<in> set (path_segments p) \<Longrightarrow> proper seg \<and> CHR ''/'' \<notin> set seg"
  unfolding path_segments_def normalizeSegments_def
  using normalizeSegments_proper[of seg "[]" "split_str ''/'' p"] split1_pieces[of seg "CHR ''/''" p]
  by auto

lemma path_segments_append:
  "path_segments (a @ CHR ''/'' # b) =
     foldl (normalize_step False) (path_segments a) (split_str ''/'' b)"
  by (simp only: path_segments_def normalizeSegments_def split1_append foldl_append)

lemma path_segments_Nil: "path_segments [] = []"
  by (simp add: path_segments_def normalizeSegments_def normalize_step_def)

lemma filter_proper_id: "\<forall>seg \<in> set segs. proper seg \<Longrightarrow> filter proper segs = segs"
  by (induction segs) auto

lemma path_segments_normalize:
  assumes "isAbsolute p"
  shows "path_segments (path_normalize p) = path_segments p"
proof -
  let ?segs = "path_segments p"
  have pr: "\<forall>seg \<in> set ?segs. proper seg" and ns: "\<forall>seg \<in> set ?segs. CHR ''/'' \<notin> set seg"
    using path_segments_proper[of _ p] by auto
  have nd: "''..'' \<notin> set ?segs" using pr by (auto simp: proper_def)
  from assms have ne: "p \<noteq> []" by (simp add: isAbsolute_def)
  show ?thesis
  proof (cases "?segs = []")
    case True
    then have "path_normalize p = ''/''"
      using assms ne by (simp add: path_normalize_def path_segments_def Let_def)
    then show ?thesis
      using True by (simp add: path_segments_def normalizeSegments_def normalize_step_def)
  next
    case False
    let ?t = "if trailingSeparator p then ''/'' else []"
    have n: "path_normalize p = [] @ CHR ''/'' # (join_str ''/'' ?segs @ ?t)"
      using assms ne False by (simp add: path_normalize_def path_segments_def Let_def)
    have sj: "split_str ''/'' (join_str ''/'' ?segs) = ?segs"
      using False ns by (rule split1_join)
    have sp: "split_str ''/'' (join_str ''/'' ?segs @ ?t) = ?segs @ (if trailingSeparator p then [[]] else [])"
    proof (cases "trailingSeparator p")
      case True
      have "split_str ''/'' (join_str ''/'' ?segs @ CHR ''/'' # []) = ?segs @ [[]]"
        by (simp only: split1_append sj split1_Nil)
      with True show ?thesis by simp
    next
      case False
      with sj show ?thesis by simp
    qed
    have "path_segments (path_normalize p)
          = foldl (normalize_step False) [] (?segs @ (if trailingSeparator p then [[]] else []))"
      unfolding n path_segments_append path_segments_Nil sp ..
    also have "\<dots> = ?segs"
      using foldl_step_no_dotdot[OF nd, of False "[]"] filter_proper_id[OF pr]
      by (simp add: normalize_step_def)
    finally show ?thesis .
  qed
qed

lemma path_segments_join:
  assumes "isAbsolute distPath" and "rfp \<noteq> []"
  shows "path_segments (path_join distPath rfp) =
           foldl (normalize_step False) (path_segments distPath) (split_str ''/'' rfp)"
proof -
  from assms have ne: "distPath \<noteq> []" by (simp add: isAbsolute_def)
  have j: "path_join distPath rfp = path_normalize (distPath @ CHR ''/'' # rfp)"
    using ne assms(2) by (simp add: path_join_def)
  have a: "isAbsolute (distPath @ CHR ''/'' # rfp)"
    using assms(1) by (simp add: isAbsolute_def)
  show ?thesis
    unfolding j path_segments_normalize[OF a] path_segments_append ..
qed

lemma inside_join:
  assumes "isAbsolute distPath" and "''..'' \<notin> set (split_str ''/'' rfp)"
    and "\<exists>seg \<in> set (split_str ''/'' rfp). seg \<noteq> [] \<and> seg \<noteq> ''.''"
  shows "inside distPath (path_join distPath rfp)"
proof -
  from assms(3) have ne: "rfp \<noteq> []" by auto
  from assms(2,3) have "filter proper (split_str ''/'' rfp) \<noteq> []"
    by (auto simp: filter_empty_conv proper_def)
  then show ?thesis
    unfolding inside_def path_segments_join[OF assms(1) ne] foldl_step_no_dotdot[OF assms(2)]
    by (simp add: strict_prefix_def)
qed

lemma reportFilePath_cases:
  "(truthy (opt_reportFilePath opts) \<longrightarrow> opt_reportFilePath opts = Some (reportFilePath opts))
   \<and> (\<not> truthy (opt_reportFilePath opts) \<and> truthy (opt_logFilePath opts) \<longrightarrow>
        opt_logFilePath opts = Some (reportFilePath opts))
   \<and> (\<not> truthy (opt_reportFilePath opts) \<and> \<not> truthy (opt_logFilePath opts) \<longrightarrow>
        reportFilePath opts = ''site-report.log'')"
  by (auto simp: truthy_def reportFilePath_def split: option.splits)

lemma normalize_step_nonempty:
  "seg \<in> set (foldl (normalize_step b) acc segs) \<Longrightarrow> seg \<in> set acc \<or> seg \<noteq> []"
proof (induction segs arbitrary: acc)
  case Nil then show ?case by simp
next
  case (Cons s segs)
  from Cons.IH[OF Cons.prems[simplified]]
  show ?case
    by (auto simp: normalize_step_def split: if_splits dest: in_set_butlastD)
qed

lemma join_str_nonempty: "ps \<noteq> [] \<Longrightarrow> \<forall>p \<in> set ps. p \<noteq> [] \<Longrightarrow> join_str sep ps \<noteq> []"
  by (induction sep ps rule: join_str.induct) auto

lemma path_normalize_nonempty: "path_normalize p \<noteq> []"
proof (cases "p = []")
  case True
  then show ?thesis by (simp add: path_normalize_def)
next
  case False
  let ?segs = "normalizeSegments (\<not> isAbsolute p) (split_str ''/'' p)"
  have ne: "\<forall>seg \<in> set ?segs. seg \<noteq> []"
    unfolding normalizeSegments_def using normalize_step_nonempty[of _ "\<not> isAbsolute p" "[]"]
    by auto
  show ?thesis
  proof (cases "?segs = []")
    case True
    with False show ?thesis by (simp add: path_normalize_def Let_def)
  next
    case n: False
    from join_str_nonempty[OF n ne] have "join_str ''/'' ?segs \<noteq> []" .
    with False n show ?thesis by (simp add: path_normalize_def Let_def)
  qed
qed

lemma path_join_nonempty: "path_join a b \<noteq> []"
  by (auto simp: path_join_def path_normalize_nonempty split: list.splits)

lemma default_inside:
  "isAbsolute distPath \<Longrightarrow> inside distPath (path_join distPath ''site-report.log'')"
  by (rule inside_join) simp_all

text \<open>
  Claim C9 has the report file inside the output directory for every options object, and
  so does the comment on the line that joins the two paths (\<^verbatim>\<open>Resolve report file path to
  absolute path in the output directory\<close>). The code at
  \<^verbatim>\<open>{ reportFilePath: '../report.log' }\<close> and the output directory \<^verbatim>\<open>/site/dist/\<close>:
  \<^verbatim>\<open>options.reportFilePath\<close> is set, so it is the path chosen; the join resolves the \<^verbatim>\<open>..\<close>,
  the file path is \<^verbatim>\<open>/site/report.log\<close>, and that is not inside \<^verbatim>\<open>/site/dist/\<close>.
\<close>

theorem report_path_leaves_output_directory:
  "reportFilePath \<lparr>opt_reportFilePath = Some ''../report.log'', opt_logFilePath = None,
                   opt_reportFormat = None, opt_phases = None\<rparr> = ''../report.log''
   \<and> absoluteReportFilePath ''/site/dist/''
       \<lparr>opt_reportFilePath = Some ''../report.log'', opt_logFilePath = None,
        opt_reportFormat = None, opt_phases = None\<rparr> = ''/site/report.log''
   \<and> \<not> inside ''/site/dist/''
       (absoluteReportFilePath ''/site/dist/''
          \<lparr>opt_reportFilePath = Some ''../report.log'', opt_logFilePath = None,
           opt_reportFormat = None, opt_phases = None\<rparr>)"
  by code_simp

section \<open>Properties of the report\<close>









lemma mkdirSync_recursive_Inr:
  "mkdirSync_recursive fs path = Inr fs1 \<Longrightarrow>
     fs1 = fs\<lparr>dirs := dirs fs \<union> set (prefixes (path_segments path))\<rparr>"
  by (auto simp: mkdirSync_recursive_def Let_def split: if_splits)

lemma writeFileSync_Inr:
  "writeFileSync fs path data = Inr fs2 \<Longrightarrow>
     fs2 = fs\<lparr>files := (files fs)(path_segments path \<mapsto> data)\<rparr>"
  by (auto simp: writeFileSync_def Let_def split: if_splits)








lemma write_report_Inr:
  assumes "write_report fs path reportData = Inr fs'"
  shows "files fs' (path_segments path) = Some reportData
       \<and> (\<forall>q. q \<noteq> path_segments path \<longrightarrow> files fs' q = files fs q)
       \<and> (existsSync fs (path_dirname path) \<longrightarrow> dirs fs' = dirs fs)
       \<and> (\<not> existsSync fs (path_dirname path) \<longrightarrow>
            dirs fs' = dirs fs \<union> set (prefixes (path_segments (path_dirname path))))
       \<and> noaccess fs' = noaccess fs"
proof (cases "existsSync fs (path_dirname path)")
  case True
  with assms have w: "writeFileSync fs path reportData = Inr fs'"
    by (simp add: write_report_def Let_def split: sum.splits)
  from writeFileSync_Inr[OF w] True show ?thesis by simp
next
  case False
  with assms obtain fs1 where m: "mkdirSync_recursive fs (path_dirname path) = Inr fs1"
    and w: "writeFileSync fs1 path reportData = Inr fs'"
    by (auto simp: write_report_def Let_def split: sum.splits)
  from mkdirSync_recursive_Inr[OF m] writeFileSync_Inr[OF w] False show ?thesis by simp
qed



section \<open>Properties of the hook\<close>

lemma observed_init: "observed (hook_init inp) = None"
  by (simp add: hook_init_def Let_def split: sum.splits)

lemma step_tasks_length: "hook_step inp s s' \<Longrightarrow> length (tasks s') = length (tasks s)"
  by (induction rule: hook_step.induct)
     (auto simp: analyse_task_def finish_task_def reject_task_def throw_rejection_def
        report_step_def split: sum.splits)

lemma all_done_no_analysing:
  "\<forall>t \<in> set ts. t = TaskDone \<Longrightarrow> i < length ts \<Longrightarrow> ts ! i \<noteq> Analysing a"
  by (metis nth_mem task.distinct(1))

lemma report_step_fields:
  "tasks (report_step inp s) = tasks s" "regs (report_step inp s) = regs s"
  "observed (report_step inp s) = Some (regs s)" "rejection (report_step inp s) = rejection s"
  "stage (report_step inp s) \<noteq> Awaiting"
  by (simp_all add: report_step_def split: sum.splits)

lemma step_observed:
  assumes "hook_step inp s s'"
  shows "(observed s = None \<and> observed s' \<noteq> None \<longrightarrow>
            (\<forall>t \<in> set (tasks s). t = TaskDone) \<and> observed s' = Some (regs s) \<and> regs s' = regs s
            \<and> tasks s' = tasks s)
       \<and> ((\<forall>t \<in> set (tasks s). t = TaskDone) \<longrightarrow> regs s' = regs s \<and> tasks s' = tasks s)
       \<and> (observed s' = None \<longrightarrow> observed s = None)
       \<and> (observed s \<noteq> None \<and> stage s \<noteq> Awaiting \<longrightarrow> observed s' = observed s)"
  using assms
proof (cases rule: hook_step.cases)
  case (analyse i f)
  then show ?thesis
    by (auto simp: analyse_task_def dest: all_done_no_analysing)
next
  case (finish i)
  then show ?thesis
    by (auto simp: finish_task_def dest: all_done_no_analysing)
next
  case (reject i msg)
  then show ?thesis
    by (auto simp: reject_task_def dest: all_done_no_analysing)
next
  case (throw e)
  then show ?thesis by (auto simp: throw_rejection_def)
next
  case report
  then show ?thesis by (simp add: report_step_fields)
qed

lemma observed_inv:
  "hook_reach inp s \<Longrightarrow>
     (\<forall>r. observed s = Some r \<longrightarrow> (\<forall>t \<in> set (tasks s). t = TaskDone) \<and> regs s = r)
     \<and> (observed s \<noteq> None \<longrightarrow> stage s \<noteq> Awaiting)"
proof (induction rule: hook_reach.induct)
  case init
  show ?case by (simp add: observed_init)
next
  case (step s s')
  from step.hyps(2) show ?case
  proof (cases rule: hook_step.cases)
    case (analyse i f)
    with step.IH show ?thesis
      by (cases "observed s") (auto simp: analyse_task_def dest: all_done_no_analysing)
  next
    case (finish i)
    with step.IH show ?thesis
      by (cases "observed s") (auto simp: finish_task_def dest: all_done_no_analysing)
  next
    case (reject i msg)
    with step.IH show ?thesis
      by (cases "observed s") (auto simp: reject_task_def dest: all_done_no_analysing)
  next
    case (throw e)
    with step.IH show ?thesis by (auto simp: throw_rejection_def)
  next
    case report
    with step.IH show ?thesis by (simp add: report_step_fields)
  qed
qed

text \<open>
  Claim C2. In every run, once \<^verbatim>\<open>generateReport\<close> has been called every task is done and
  the registries are the ones it was given; the step that calls it starts from a state in
  which every task is done and hands it the registries of that state; and no later step
  changes the registries. So the formatter sees the registries only after the last write
  to them.
\<close>

theorem report_after_all_analyses:
  assumes "hook_reach inp s"
  shows "(\<forall>r. observed s = Some r \<longrightarrow> (\<forall>t \<in> set (tasks s). t = TaskDone) \<and> regs s = r)
       \<and> (\<forall>s'. hook_step inp s s' \<and> observed s = None \<and> observed s' \<noteq> None \<longrightarrow>
             (\<forall>t \<in> set (tasks s). t = TaskDone) \<and> observed s' = Some (regs s))
       \<and> (\<forall>s'. hook_step inp s s' \<and> observed s \<noteq> None \<longrightarrow>
             regs s' = regs s \<and> observed s' = observed s)"
proof -
  note inv = observed_inv[OF assms]
  have a: "(\<forall>t \<in> set (tasks s). t = TaskDone) \<and> observed s' = Some (regs s)"
    if "hook_step inp s s'" "observed s = None" "observed s' \<noteq> None" for s'
    using step_observed[OF that(1)] that(2,3) by blast
  have b: "regs s' = regs s \<and> observed s' = observed s"
    if "hook_step inp s s'" "observed s \<noteq> None" for s'
  proof -
    from that(2) inv have d: "\<forall>t \<in> set (tasks s). t = TaskDone" and st: "stage s \<noteq> Awaiting"
      by auto
    from step_observed[OF that(1)] d st that(2) show ?thesis by blast
  qed
  from inv a b show ?thesis by blast
qed

lemma read_index:
  "readFileSync fs_example (path_join ''/site/dist/'' ''index.html'') = Inr ''<html></html>''"
  by code_simp

lemma run_example_init:
  "hook_init run_example =
     \<lparr>tasks = [Analysing (Step page_stretch)], regs = ([], []), pagesProcessed = 0,
      logged = [StartMessage 1 1 [''Foundation'']], fsys = fs_example, rejection = None,
      stage = Awaiting, observed = None\<rparr>"
  by (simp add: hook_init_def run_example_def start_task_def read_index task_of_def
        enabledPhases_def enabledPhaseNames_def Object_values_def configured_phases_def
        configure_phases_def phase_lookup_def set_enabled_def)

lemma generateReport_log:
  "generateReport env bl seo ro (fs, lg) = Inr st \<Longrightarrow> \<exists>more. snd st = lg @ more"
  by (auto simp: generateReport_def split: sum.splits if_splits)

lemma hook_step_log: "hook_step inp s s' \<Longrightarrow> \<exists>more. logged s' = logged s @ more"
proof (induction rule: hook_step.induct)
  case (report s)
  show ?case
  proof (cases "generateReport (in_env inp) (fst (regs s)) (snd (regs s)) (report_options_of inp)
             (fsys s, logged s)")
    case (Inl e)
    then show ?thesis by (simp add: report_step_def)
  next
    case (Inr st)
    from generateReport_log[OF Inr] Inr show ?thesis by (simp add: report_step_def)
  qed
qed (simp_all add: analyse_task_def finish_task_def reject_task_def throw_rejection_def)

lemma hook_reach_log: "hook_reach inp s \<Longrightarrow> \<exists>more. logged s = logged (hook_init inp) @ more"
proof (induction rule: hook_reach.induct)
  case init
  show ?case by simp
next
  case (step s s')
  from step.IH hook_step_log[OF step.hyps(2)] show ?case by auto
qed

text \<open>
  Claim C5. The message logged at the start of the scan carries, beside the number of
  pages, the number and the names of the running phases. With the options map \<open>es\<close>
  (empty when \<^verbatim>\<open>options.phases\<close> is left out) over the catalogue the integration found, the
  number counts exactly the catalogue positions whose flag is true after configuration
  (the map's value for the phase id, or the catalogue's flag where the map has none), and
  the names are those of exactly these phases, in catalogue order; a phase the map
  switches off is neither counted nor named. The message stays the first entry of the
  log throughout the run.
\<close>

theorem enabled_phase_reporting:
  assumes "in_htmlFiles inp = Inr htmlFiles"
    and "opt_phases (in_options inp) = Some es \<or> opt_phases (in_options inp) = None \<and> es = []"
    and "distinct (map fst es)"
  shows "logged (hook_init inp) =
           [StartMessage (length htmlFiles)
              (card {i. i < length (in_phases inp)
                       \<and> (case map_of es (fst (in_phases inp ! i)) of
                             Some v \<Rightarrow> v
                           | None \<Rightarrow> enabled (snd (in_phases inp ! i)))})
              (map (\<lambda>kp. name (snd kp))
                 (filter (\<lambda>kp. case map_of es (fst kp) of
                                  Some v \<Rightarrow> v
                                | None \<Rightarrow> enabled (snd kp))
                    (in_phases inp)))]
       \<and> (\<forall>s. hook_reach inp s \<longrightarrow> take 1 (logged s) = logged (hook_init inp))"
proof -
  let ?ps = "in_phases inp"
  let ?eff = "\<lambda>kp. case map_of es (fst kp) of Some v \<Rightarrow> v | None \<Rightarrow> enabled (snd kp)"
  have "configure_phases (opt_phases (in_options inp)) ?ps = configure_entries es ?ps"
    using assms(2) by (auto simp: configure_phases_def)
  then have c: "configured_phases inp = map (\<lambda>kp. (fst kp, (snd kp)\<lparr>enabled := ?eff kp\<rparr>)) ?ps"
    using configure_entries_pointwise[OF assms(3), of ?ps]
    by (simp add: configured_phases_def effective_flag_def)
  have n: "enabledPhaseNames (configured_phases inp) = map (\<lambda>kp. name (snd kp)) (filter ?eff ?ps)"
    unfolding c by (simp add: enabledPhaseNames_def Object_values_def filter_map comp_def)
  have "enabledPhases (configured_phases inp) = length (filter ?eff ?ps)"
    unfolding c by (simp add: enabledPhases_def Object_values_def filter_map comp_def)
  also have "\<dots> = card {i. i < length ?ps \<and> ?eff (?ps ! i)}"
    by (rule length_filter_conv_card)
  finally have k: "enabledPhases (configured_phases inp) = card {i. i < length ?ps \<and> ?eff (?ps ! i)}" .
  have a: "logged (hook_init inp) =
           [StartMessage (length htmlFiles) (card {i. i < length ?ps \<and> ?eff (?ps ! i)})
              (map (\<lambda>kp. name (snd kp)) (filter ?eff ?ps))]"
    unfolding hook_init_def assms(1) by (simp add: Let_def n k)
  have b: "take 1 (logged s) = logged (hook_init inp)" if "hook_reach inp s" for s
    using hook_reach_log[OF that] a by auto
  from a b show ?thesis by blast
qed

theorem enabled_phase_reporting_witness:
  "in_htmlFiles run_example = Inr [''index.html'']
   \<and> opt_phases (in_options run_example) = Some [(''metadata'', False), (''bogus'', True)]
   \<and> distinct (map fst [(''metadata'', False), (''bogus'', True)])
   \<and> in_phases run_example = [(''foundation'', \<lparr>name = ''Foundation'', enabled = True\<rparr>),
                               (''metadata'', \<lparr>name = ''Metadata'', enabled = True\<rparr>)]
   \<and> logged (hook_init run_example) = [StartMessage 1 1 [''Foundation'']]
   \<and> card {i. i < length (in_phases run_example)
               \<and> (case map_of [(''metadata'', False), (''bogus'', True)]
                          (fst (in_phases run_example ! i)) of
                     Some v \<Rightarrow> v
                   | None \<Rightarrow> enabled (snd (in_phases run_example ! i)))} = 1"
proof -
  have h1: "in_htmlFiles run_example = Inr [''index.html'']"
    by (simp add: run_example_def)
  have h2: "opt_phases (in_options run_example) = Some [(''metadata'', False), (''bogus'', True)]"
    by (simp add: run_example_def)
  have h2': "opt_phases (in_options run_example) = Some [(''metadata'', False), (''bogus'', True)]
      \<or> opt_phases (in_options run_example) = None \<and> [(''metadata'', False), (''bogus'', True)] = []"
    using h2 by simp
  have h3: "distinct (map fst [(''metadata'', False), (''bogus'', True)])" by simp
  have p: "in_phases run_example = [(''foundation'', \<lparr>name = ''Foundation'', enabled = True\<rparr>),
                               (''metadata'', \<lparr>name = ''Metadata'', enabled = True\<rparr>)]"
    by (simp add: run_example_def)
  have l: "logged (hook_init run_example) = [StartMessage 1 1 [''Foundation'']]"
    by (simp add: run_example_init)
  from enabled_phase_reporting[OF h1 h2' h3] l
  have "card {i. i < length (in_phases run_example)
               \<and> (case map_of [(''metadata'', False), (''bogus'', True)]
                          (fst (in_phases run_example ! i)) of
                     Some v \<Rightarrow> v
                   | None \<Rightarrow> enabled (snd (in_phases run_example ! i)))} = 1"
    by simp
  with h1 h2 h3 p l show ?thesis by blast
qed

lemma run_example_scanned:
  "finish_task 0 (analyse_task 0 page_stretch (hook_init run_example)) =
     \<lparr>tasks = [TaskDone], regs = ([(''/missing'', [''/''])], []), pagesProcessed = 1,
      logged = [StartMessage 1 1 [''Foundation'']], fsys = fs_example, rejection = None,
      stage = Awaiting, observed = None\<rparr>"
  by (simp add: run_example_init finish_task_def analyse_task_def page_stretch_def
        progress_log_def addBrokenLink_def Map_has_def Map_get_def Set_add_def)

lemma run_example_reach:
  "hook_reach run_example (finish_task 0 (analyse_task 0 page_stretch (hook_init run_example)))"
proof -
  have r0: "hook_reach run_example (hook_init run_example)" by (rule hook_reach.init)
  have "hook_step run_example (hook_init run_example)
          (analyse_task 0 page_stretch (hook_init run_example))"
    by (rule hook_step.analyse) (simp_all add: run_example_init)
  with r0 have r1: "hook_reach run_example (analyse_task 0 page_stretch (hook_init run_example))"
    by (rule hook_reach.step)
  have "hook_step run_example (analyse_task 0 page_stretch (hook_init run_example))
          (finish_task 0 (analyse_task 0 page_stretch (hook_init run_example)))"
    by (rule hook_step.finish)
       (simp_all add: run_example_init analyse_task_def page_stretch_def)
  with r1 show ?thesis by (rule hook_reach.step)
qed

lemma run_example_report:
  "hook_step run_example
     (finish_task 0 (analyse_task 0 page_stretch (hook_init run_example)))
     (report_step run_example (finish_task 0 (analyse_task 0 page_stretch (hook_init run_example))))"
  by (rule hook_step.report) (simp_all add: run_example_scanned)

theorem report_after_all_analyses_witness:
  "hook_reach run_example
     (report_step run_example (finish_task 0 (analyse_task 0 page_stretch (hook_init run_example))))
   \<and> observed (report_step run_example
        (finish_task 0 (analyse_task 0 page_stretch (hook_init run_example))))
       = Some ([(''/missing'', [''/''])], [])
   \<and> tasks (finish_task 0 (analyse_task 0 page_stretch (hook_init run_example))) = [TaskDone]"
proof -
  let ?s = "finish_task 0 (analyse_task 0 page_stretch (hook_init run_example))"
  have n: "observed ?s = None" by (simp add: run_example_scanned)
  have o: "observed (report_step run_example ?s) \<noteq> None" by (simp add: report_step_fields)
  from report_after_all_analyses[OF run_example_reach] run_example_report n o
  have "observed (report_step run_example ?s) = Some (regs ?s)" by blast
  moreover have "regs ?s = ([(''/missing'', [''/''])], [])" by (simp add: run_example_scanned)
  moreover have "hook_reach run_example (report_step run_example ?s)"
    using run_example_reach run_example_report by (rule hook_reach.step)
  moreover have "tasks ?s = [TaskDone]" by (simp add: run_example_scanned)
  ultimately show ?thesis by simp
qed

lemma filePath_nonempty: "ro_filePath (report_options_of inp) \<noteq> []"
  by (simp add: report_options_of_def absoluteReportFilePath_def path_join_nonempty)

lemma write_report_Inl:
  "write_report fs path reportData = Inl e \<Longrightarrow>
     (\<exists>x. e = MkdirError x \<and> \<not> existsSync fs (path_dirname path)
           \<and> mkdirSync_recursive fs (path_dirname path) = Inl x)
     \<or> (\<exists>x. e = WriteError x)"
  by (auto simp: write_report_def Let_def split: sum.splits if_splits)

lemma generateReport_Inr:
  assumes "generateReport env bl seo ro (fs, lg) = Inr st" and "ro_filePath ro \<noteq> []"
  shows "\<exists>reportData sm. env_formatReport env bl seo ro = Inr reportData
           \<and> write_report fs (ro_filePath ro) reportData = Inr (fst st)
           \<and> snd st = lg @ [Summary sm]"
  using assms by (auto simp: generateReport_def split: sum.splits)

lemma generateReport_Inl:
  assumes "generateReport env bl seo ro (fs, lg) = Inl e"
  shows "(\<exists>msg. e = FormatError msg \<and> env_formatReport env bl seo ro = Inl msg)
       \<or> (\<exists>reportData. write_report fs (ro_filePath ro) reportData = Inl e)"
  using assms by (auto simp: generateReport_def split: sum.splits if_splits)

lemma first_error_cause:
  "first_error (map (start_task inp) fs) = Some e \<Longrightarrow> \<exists>f \<in> set fs. start_task inp f = Inl e"
proof (induction fs)
  case Nil then show ?case by simp
next
  case (Cons f fs)
  then show ?case by (cases "start_task inp f") auto
qed

lemma start_task_Inl:
  "start_task inp f = Inl e \<Longrightarrow>
     \<exists>x. e = ReadError x \<and> readFileSync (in_fs inp) (path_join (in_distPath inp) f) = Inl x"
  by (auto simp: start_task_def Let_def split: sum.splits)

lemma hook_inv_init: "hook_inv inp (hook_init inp)"
proof (cases "in_htmlFiles inp")
  case (Inl msg)
  then show ?thesis by (simp add: hook_inv_def hook_init_def)
next
  case (Inr fs)
  have r: "error_cause inp e" if "first_error (map (start_task inp) fs) = Some e" for e
  proof -
    from first_error_cause[OF that] obtain f where f: "f \<in> set fs" "start_task inp f = Inl e"
      by blast
    from start_task_Inl[OF f(2)] f(1) Inr show ?thesis by auto
  qed
  have a: "may_throw inp"
    if "Analysing a \<in> set (map task_of (map (start_task inp) fs))" "can_reject a" for a
  proof -
    from that(1) obtain f where "f \<in> set fs" "task_of (start_task inp f) = Analysing a"
      by auto
    then have "f \<in> set fs" "start_task inp f = Inr a"
      by (auto simp: task_of_def split: sum.splits)
    with that(2) Inr show ?thesis by (auto simp: may_throw_def)
  qed
  from r a show ?thesis
    by (simp add: hook_inv_def hook_init_def Inr Let_def)
qed

lemma set_update_mem: "x \<in> set (xs[i := y]) \<Longrightarrow> x = y \<or> x \<in> set xs"
  using set_update_subset_insert[of xs i y] by auto

lemma hook_inv_step:
  assumes "hook_inv inp s" and "hook_step inp s s'"
  shows "hook_inv inp s'"
  using assms(2)
proof (cases rule: hook_step.cases)
  case (analyse i f)
  have nd: "stage s \<noteq> Done"
    using assms(1) analyse by (auto simp: hook_inv_def dest: all_done_no_analysing)
  have c: "may_throw inp" if "Analysing a \<in> set (tasks s')" "can_reject a" for a
  proof -
    from that(1) have "a = snd (f (regs s)) \<or> Analysing a \<in> set (tasks s)"
      by (auto simp: analyse analyse_task_def dest: set_update_mem)
    then show ?thesis
    proof
      assume "a = snd (f (regs s))"
      with that(2) have "can_reject (Step f)" by (auto intro: can_reject.later)
      moreover have "Analysing (Step f) \<in> set (tasks s)" using analyse by (metis nth_mem)
      ultimately show ?thesis using assms(1) by (auto simp: hook_inv_def)
    next
      assume "Analysing a \<in> set (tasks s)"
      with that(2) assms(1) show ?thesis by (auto simp: hook_inv_def)
    qed
  qed
  from assms(1) nd c show ?thesis
    unfolding hook_inv_def by (simp add: analyse(1) analyse_task_def)
next
  case (finish i)
  have nd: "stage s \<noteq> Done"
    using assms(1) finish by (auto simp: hook_inv_def dest: all_done_no_analysing)
  have c: "may_throw inp" if "Analysing a \<in> set (tasks s')" "can_reject a" for a
  proof -
    from that(1) have "Analysing a \<in> set (tasks s)"
      by (auto simp: finish finish_task_def dest: set_update_mem)
    with that(2) assms(1) show ?thesis by (auto simp: hook_inv_def)
  qed
  from assms(1) nd c show ?thesis
    unfolding hook_inv_def by (simp add: finish(1) finish_task_def)
next
  case (reject i msg)
  have nd: "stage s \<noteq> Done"
    using assms(1) reject by (auto simp: hook_inv_def dest: all_done_no_analysing)
  have "Analysing (Rejected msg) \<in> set (tasks s)" using reject by (metis nth_mem)
  then have mt: "may_throw inp"
    using assms(1) by (auto simp: hook_inv_def intro: can_reject.now)
  have c: "may_throw inp" if "Analysing a \<in> set (tasks s')" "can_reject a" for a
    by (rule mt)
  have r: "error_cause inp e" if "rejection s' = Some e" for e
    using that assms(1) mt
    by (auto simp: reject reject_task_def hook_inv_def split: option.splits)
  from assms(1) nd c r show ?thesis
    unfolding hook_inv_def by (simp add: reject(1) reject_task_def)
next
  case (throw e)
  with assms(1) show ?thesis
    unfolding hook_inv_def by (simp add: throw_rejection_def)
next
  case report
  let ?g = "generateReport (in_env inp) (fst (regs s)) (snd (regs s)) (report_options_of inp)
             (fsys s, logged s)"
  from report assms(1) have fs: "fsys s = in_fs inp" by (simp add: hook_inv_def)
  show ?thesis
  proof (cases ?g)
    case (Inl e)
    have s': "s' = s\<lparr>stage := Failed e, observed := Some (regs s)\<rparr>"
      by (simp add: report(1) report_step_def Inl)
    from generateReport_Inl[OF Inl] have "error_cause inp e"
    proof
      assume "\<exists>msg. e = FormatError msg \<and>
        env_formatReport (in_env inp) (fst (regs s)) (snd (regs s)) (report_options_of inp) = Inl msg"
      then obtain msg where m: "e = FormatError msg"
        "env_formatReport (in_env inp) (fst (regs s)) (snd (regs s)) (report_options_of inp) = Inl msg"
        by blast
      have "\<exists>bl seo. env_formatReport (in_env inp) bl seo (report_options_of inp) = Inl msg"
        by (rule exI[of _ "fst (regs s)"], rule exI[of _ "snd (regs s)"]) (rule m(2))
      then show ?thesis by (simp add: m(1))
    next
      assume "\<exists>reportData. write_report (fsys s) (ro_filePath (report_options_of inp)) reportData = Inl e"
      then obtain d where w: "write_report (in_fs inp) (ro_filePath (report_options_of inp)) d = Inl e"
        by (auto simp: fs)
      from write_report_Inl[OF w] w show ?thesis by auto
    qed
    with assms(1) fs show ?thesis
      unfolding hook_inv_def by (simp add: s')
  next
    case (Inr st)
    have s': "s' = s\<lparr>fsys := fst st, logged := snd st, stage := Done, observed := Some (regs s)\<rparr>"
      by (simp add: report(1) report_step_def Inr)
    from generateReport_Inr[OF Inr filePath_nonempty] obtain d sm where
      d: "env_formatReport (in_env inp) (fst (regs s)) (snd (regs s)) (report_options_of inp) = Inr d"
      and w: "write_report (fsys s) (ro_filePath (report_options_of inp)) d = Inr (fst st)"
      and l: "snd st = logged s @ [Summary sm]"
      by blast
    from write_report_Inr[OF w]
    have f: "files (fst st) (path_segments (ro_filePath (report_options_of inp))) = Some d"
      by simp
    have "Summary sm \<in> set (snd st)" by (simp add: l)
    with assms(1) report(3) d f show ?thesis
      unfolding hook_inv_def by (auto simp: s')
  qed
qed

lemma hook_inv_reach: "hook_reach inp s \<Longrightarrow> hook_inv inp s"
  by (induction rule: hook_reach.induct) (auto intro: hook_inv_init hook_inv_step)

text \<open>
  Claim C3, as the code has it. A run that ends normally has every task done, the report
  file holding the text the formatter made of the final registries, and a summary in the
  log. A run that ends with an exception has the cause of it in its input: the listing
  failed, a page could not be read, the analysis of a page threw, the formatter threw, or
  the report directory or file could not be written. When the listing and every read
  succeed and neither analysis nor formatter can throw, only the last kind is left.
\<close>

theorem hook_outcome:
  assumes "hook_reach inp s"
  shows "(stage s = Done \<longrightarrow>
            (\<forall>t \<in> set (tasks s). t = TaskDone)
            \<and> (\<exists>reportData sm.
                  env_formatReport (in_env inp) (fst (regs s)) (snd (regs s)) (report_options_of inp)
                    = Inr reportData
                  \<and> files (fsys s) (path_segments (ro_filePath (report_options_of inp)))
                    = Some reportData
                  \<and> Summary sm \<in> set (logged s)))
       \<and> (\<forall>e. stage s = Failed e \<longrightarrow> error_cause inp e)
       \<and> ((\<exists>htmlFiles. in_htmlFiles inp = Inr htmlFiles
              \<and> (\<forall>f \<in> set htmlFiles. \<forall>x.
                    readFileSync (in_fs inp) (path_join (in_distPath inp) f) \<noteq> Inl x))
            \<and> \<not> may_throw inp
            \<and> (\<forall>bl seo msg. env_formatReport (in_env inp) bl seo (report_options_of inp) \<noteq> Inl msg)
          \<longrightarrow> (\<forall>e. stage s = Failed e \<longrightarrow> (\<exists>x. e = MkdirError x \<or> e = WriteError x)))"
proof -
  from hook_inv_reach[OF assms] have inv: "hook_inv inp s" .
  then have a: "stage s = Done \<longrightarrow>
            (\<forall>t \<in> set (tasks s). t = TaskDone)
            \<and> (\<exists>reportData sm.
                  env_formatReport (in_env inp) (fst (regs s)) (snd (regs s)) (report_options_of inp)
                    = Inr reportData
                  \<and> files (fsys s) (path_segments (ro_filePath (report_options_of inp)))
                    = Some reportData
                  \<and> Summary sm \<in> set (logged s))"
    and b: "\<forall>e. stage s = Failed e \<longrightarrow> error_cause inp e"
    by (simp_all add: hook_inv_def)
  have c: "\<exists>x. e = MkdirError x \<or> e = WriteError x"
    if ok: "\<exists>htmlFiles. in_htmlFiles inp = Inr htmlFiles
              \<and> (\<forall>f \<in> set htmlFiles. \<forall>x.
                    readFileSync (in_fs inp) (path_join (in_distPath inp) f) \<noteq> Inl x)"
       "\<not> may_throw inp"
       "\<forall>bl seo msg. env_formatReport (in_env inp) bl seo (report_options_of inp) \<noteq> Inl msg"
      and f: "stage s = Failed e" for e
  proof -
    from b f have "error_cause inp e" by simp
    with ok show ?thesis by (cases e) auto
  qed
  from a b c show ?thesis by blast
qed

lemma run_example_path: "ro_filePath (report_options_of run_example) = ''/site/dist/site-report.log''"
  by code_simp

lemma run_example_write:
  "write_report fs_example ''/site/dist/site-report.log'' ''report'' =
     Inr (fs_example\<lparr>files := (files fs_example)([''site'', ''dist'', ''site-report.log''] \<mapsto> ''report'')\<rparr>)"
proof -
  have s1: "path_segments ''/site/dist/site-report.log'' = [''site'', ''dist'', ''site-report.log'']"
    by code_simp
  have s2: "path_segments (path_dirname ''/site/dist/site-report.log'') = [''site'', ''dist'']"
    by code_simp
  have ts: "\<not> trailingSeparator ''/site/dist/site-report.log''"
    by code_simp
  show ?thesis
    unfolding write_report_def Let_def existsSync_def writeFileSync_def s1 s2
    by (simp add: ts is_dir_def is_file_def fs_example_def)
qed

lemma run_example_done:
  "stage (report_step run_example
       (finish_task 0 (analyse_task 0 page_stretch (hook_init run_example)))) = Done"
proof -
  have e: "in_env run_example = \<lparr>env_endTime = 2230, env_tie = ties_up,
                 env_formatReport = (\<lambda>bl seo ro. Inr ''report'')\<rparr>"
    by (simp add: run_example_def)
  show ?thesis
    unfolding report_step_def run_example_scanned generateReport_def run_example_path e
    by (simp add: run_example_write)
qed

theorem hook_outcome_witness:
  "hook_reach run_example
     (report_step run_example (finish_task 0 (analyse_task 0 page_stretch (hook_init run_example))))
   \<and> stage (report_step run_example
       (finish_task 0 (analyse_task 0 page_stretch (hook_init run_example)))) = Done
   \<and> files (fsys (report_step run_example
       (finish_task 0 (analyse_task 0 page_stretch (hook_init run_example)))))
        (path_segments ''/site/dist/site-report.log'') = Some ''report''"
proof -
  let ?s = "report_step run_example
       (finish_task 0 (analyse_task 0 page_stretch (hook_init run_example)))"
  have r: "hook_reach run_example ?s"
    using run_example_reach run_example_report by (rule hook_reach.step)
  have f: "env_formatReport (in_env run_example) bl seo ro = Inr ''report''" for bl seo ro
    by (simp add: run_example_def)
  from hook_outcome[OF r] run_example_done
  have "\<exists>reportData. Inr ''report'' = (Inr reportData :: string + string)
          \<and> files (fsys ?s) (path_segments ''/site/dist/site-report.log'') = Some reportData"
    unfolding f run_example_path by blast
  then have "files (fsys ?s) (path_segments ''/site/dist/site-report.log'') = Some ''report''"
    by auto
  with r run_example_done show ?thesis by blast
qed

text \<open>
  The claim as written lets only a failed write of the report end the run with an
  exception. A page that cannot be read does so too: the read throws inside the task,
  \<^verbatim>\<open>Promise.all\<close> rejects, nothing catches it, and no report is written.
\<close>

lemma read_private:
  "readFileSync (in_fs run_unreadable) (path_join (in_distPath run_unreadable) ''private.html'')
     = Inl EACCES"
  by code_simp

lemma read_index_unreadable:
  "readFileSync (in_fs run_unreadable) (path_join (in_distPath run_unreadable) ''index.html'')
     = Inr ''<html></html>''"
  by code_simp

lemma run_unreadable_init:
  "rejection (hook_init run_unreadable) = Some (ReadError EACCES)
   \<and> stage (hook_init run_unreadable) = Awaiting
   \<and> fsys (hook_init run_unreadable) = in_fs run_unreadable"
proof -
  have h: "in_htmlFiles run_unreadable = Inr [''index.html'', ''private.html'']"
    by (simp add: run_unreadable_def)
  show ?thesis
    unfolding hook_init_def h
    by (simp add: start_task_def read_private read_index_unreadable Let_def)
qed

theorem hook_failure_counterexample:
  "hook_reach run_unreadable (throw_rejection (ReadError EACCES) (hook_init run_unreadable))
   \<and> stage (throw_rejection (ReadError EACCES) (hook_init run_unreadable))
       = Failed (ReadError EACCES)
   \<and> files (fsys (throw_rejection (ReadError EACCES) (hook_init run_unreadable)))
       (path_segments (ro_filePath (report_options_of run_unreadable))) = None"
proof -
  have "hook_step run_unreadable (hook_init run_unreadable)
          (throw_rejection (ReadError EACCES) (hook_init run_unreadable))"
    by (rule hook_step.throw) (simp_all add: run_unreadable_init)
  with hook_reach.init[of run_unreadable]
  have r: "hook_reach run_unreadable (throw_rejection (ReadError EACCES) (hook_init run_unreadable))"
    by (rule hook_reach.step)
  have p: "path_segments (ro_filePath (report_options_of run_unreadable))
             = [''site'', ''dist'', ''site-report.log'']"
    by code_simp
  have f: "files (in_fs run_unreadable) [''site'', ''dist'', ''site-report.log''] = None"
    by (simp add: run_unreadable_def fs_example_def)
  from r f show ?thesis
    by (simp add: throw_rejection_def run_unreadable_init p)
qed

section \<open>Properties of the logged summary\<close>

lemma insert_sorted_mset: "mset (insert_sorted cmp x xs) = add_mset x (mset xs)"
  by (induction xs) auto

lemma Array_sort_mset_gen:
  "mset (foldl (\<lambda>sorted x. insert_sorted cmp x sorted) acc xs) = mset acc + mset xs"
  by (induction xs arbitrary: acc) (auto simp: insert_sorted_mset)

lemma Array_sort_mset: "mset (Array_sort cmp xs) = mset xs"
  by (simp add: Array_sort_def Array_sort_mset_gen)

lemma totalInGroup_gen:
  "\<forall>i \<in> set issues. \<exists>n. count i = Num n \<Longrightarrow>
   \<exists>t. foldl (\<lambda>sum issue. num_add sum (count issue)) (Num a) issues = Num t
       \<and> int t = int a + sum_mset (image_mset (\<lambda>i. case count i of Num n \<Rightarrow> int n | NaN \<Rightarrow> 0) (mset issues))"
proof (induction issues arbitrary: a)
  case Nil
  show ?case by simp
next
  case (Cons i issues)
  then obtain n where n: "count i = Num n" by auto
  from Cons.IH[of "a + n"] Cons.prems n show ?case by auto
qed

lemma groupOf_literal:
  "groupOf c = find (\<lambda>g. prefix g c)
     [''performance'', ''accessibility'', ''metadata'', ''semantic'', ''crawlability'',
      ''linking'', ''content'', ''privacy'', ''technical'']"
proof -
  have "startsWith c = (\<lambda>g. prefix g c)" by (simp add: startsWith_def fun_eq_iff)
  then show ?thesis by (simp add: groupOf_def Object_keys_def categoryGroups_init_def)
qed

lemma entry_of_literal:
  "entry_of = (\<lambda>ci. \<lparr>count = Num (length (snd ci)), category = fst ci\<rparr>)"
  by (simp add: entry_of_def Map_size_def fun_eq_iff)

lemma count_ge_literal:
  "count_ge = (\<lambda>a b. \<exists>m n. count a = Num m \<and> count b = Num n \<and> n \<le> m)"
  by (auto simp: count_ge_def fun_eq_iff split: number.splits)

lemma block_total:
  assumes "mset issues = mset (map entry_of rows)"
  shows "totalInGroup issues = Num (sum_list (map (\<lambda>ci. length (snd ci)) rows))"
proof -
  have all: "\<forall>i \<in> set issues. \<exists>n. count i = Num n"
  proof
    fix i assume "i \<in> set issues"
    then have "i \<in># mset (map entry_of rows)" using assms by (metis set_mset_mset)
    then show "\<exists>n. count i = Num n" by (auto simp: entry_of_def)
  qed
  from totalInGroup_gen[OF all, of 0] obtain t where
    t: "totalInGroup issues = Num t"
    "int t = sum_mset (image_mset (\<lambda>i. case count i of Num n \<Rightarrow> int n | NaN \<Rightarrow> 0) (mset issues))"
    by (auto simp: totalInGroup_def)
  have "int t = sum_mset (image_mset (\<lambda>i. case count i of Num n \<Rightarrow> int n | NaN \<Rightarrow> 0)
                   (mset (map entry_of rows)))"
    using t(2) assms by simp
  also have "\<dots> = int (sum_list (map (\<lambda>ci. length (snd ci)) rows))"
    by (induction rows) (auto simp: entry_of_def Map_size_def)
  finally have "t = sum_list (map (\<lambda>ci. length (snd ci)) rows)" by simp
  with t(1) show ?thesis by simp
qed

lemma breakdown_blocks:
  fixes seo :: seoIssuesMap
  defines "blocks \<equiv> displayedGroups (sortIntoGroups (issueCategories seo))"
  shows "map fst blocks = filter (\<lambda>g. \<exists>ci \<in> set seo. groupOf (fst ci) = Some g) groupDisplayOrder"
    and "\<forall>gi \<in> set blocks. sorted_wrt count_ge (snd gi)
           \<and> mset (snd gi) = mset (map entry_of (filter (\<lambda>ci. groupOf (fst ci) = Some (fst gi)) seo))"
    and "categoriesByGroup seo =
          (if seo = [] then []
           else BreakdownTitle # concat (map (\<lambda>gi.
                  GroupHeader (fst gi)
                    (Num (sum_list (map (\<lambda>ci. length (snd ci))
                           (filter (\<lambda>ci. groupOf (fst ci) = Some (fst gi)) seo))))
                  # map (\<lambda>i. IssueLine (issueType (category i)) (count i)) (snd gi)) blocks))"
proof -
  let ?groups = "sortIntoGroups (issueCategories seo)"
  have ne: "group_issues ?groups g \<noteq> [] \<longleftrightarrow> (\<exists>ci \<in> set seo. groupOf (fst ci) = Some g)" for g
    by (auto simp: sortIntoGroups_issues filter_empty_conv)
  show a: "map fst blocks = filter (\<lambda>g. \<exists>ci \<in> set seo. groupOf (fst ci) = Some g) groupDisplayOrder"
    unfolding blocks_def displayedGroups_fst ne ..
  have b: "sorted_wrt count_ge (snd gi)
           \<and> mset (snd gi) = mset (map entry_of (filter (\<lambda>ci. groupOf (fst ci) = Some (fst gi)) seo))"
    if "gi \<in> set blocks" for gi
  proof -
    from that have "(fst gi, snd gi) \<in> set (displayedGroups ?groups)" by (simp add: blocks_def)
    from displayedGroups_mem[OF this]
    have i: "snd gi = Array_sort compare_count (group_issues ?groups (fst gi))" by simp
    have "\<forall>y \<in> set (group_issues ?groups (fst gi)). count y \<noteq> NaN"
      by (auto simp: sortIntoGroups_issues entry_of_def)
    then have "sorted_wrt count_ge (snd gi)" unfolding i by (rule Array_sort_desc)
    moreover have "mset (snd gi) = mset (map entry_of (filter (\<lambda>ci. groupOf (fst ci) = Some (fst gi)) seo))"
      unfolding i Array_sort_mset sortIntoGroups_issues ..
    ultimately show ?thesis by simp
  qed
  then show "\<forall>gi \<in> set blocks. sorted_wrt count_ge (snd gi)
           \<and> mset (snd gi) = mset (map entry_of (filter (\<lambda>ci. groupOf (fst ci) = Some (fst gi)) seo))"
    by blast
  have l: "group_lines gi =
             GroupHeader (fst gi)
               (Num (sum_list (map (\<lambda>ci. length (snd ci))
                      (filter (\<lambda>ci. groupOf (fst ci) = Some (fst gi)) seo))))
             # map (\<lambda>i. IssueLine (issueType (category i)) (count i)) (snd gi)"
    if "gi \<in> set blocks" for gi
    using block_total[of "snd gi" "filter (\<lambda>ci. groupOf (fst ci) = Some (fst gi)) seo"] b[OF that]
    by (simp add: group_lines_def)
  have m: "map group_lines blocks = map (\<lambda>gi.
                  GroupHeader (fst gi)
                    (Num (sum_list (map (\<lambda>ci. length (snd ci))
                           (filter (\<lambda>ci. groupOf (fst ci) = Some (fst gi)) seo))))
                  # map (\<lambda>i. IssueLine (issueType (category i)) (count i)) (snd gi)) blocks"
    by (rule map_cong) (simp_all add: l)
  have c: "categoriesByGroup seo =
          (if seo = [] then [] else BreakdownTitle # concat (map group_lines blocks))"
    by (simp add: categoriesByGroup_def issueCategories_def blocks_def)
  show "categoriesByGroup seo =
          (if seo = [] then []
           else BreakdownTitle # concat (map (\<lambda>gi.
                  GroupHeader (fst gi)
                    (Num (sum_list (map (\<lambda>ci. length (snd ci))
                           (filter (\<lambda>ci. groupOf (fst ci) = Some (fst gi)) seo))))
                  # map (\<lambda>i. IssueLine (issueType (category i)) (count i)) (snd gi)) blocks))"
    unfolding c m ..
qed

lemma generateReport_summary:
  assumes "generateReport env bl seo ro (fs, lg) = Inr st" and "ro_filePath ro \<noteq> []"
  shows "snd st = lg @ [Summary (summaryForConsole (env_tie env) (ro_startTime ro)
                                  (env_endTime env) bl seo (ro_filePath ro))]"
  using assms by (auto simp: generateReport_def split: sum.splits)

lemma seo_example_split:
  "seo_example =
     [(''semantic: h1'', [(''a'', [''/x''])]),
      (''performance: slow'', [(''a'', [''/x'']), (''b'', [''/x''])])]
     @ (''weird'', [(''a'', [''/x'']), (''d'', [''/x'', ''/y''])])
     # [(''performance: big'', [(''a'', [''/x'']), (''b'', [''/x'']), (''c'', [''/y''])])]"
  by (simp add: seo_example_def)

lemma example_report:
  "generateReport (in_env run_example) [] seo_example (report_options_of run_example)
       (fs_example, []) =
     Inr (fs_example\<lparr>files := (files fs_example)([''site'', ''dist'', ''site-report.log''] \<mapsto> ''report'')\<rparr>,
          [] @ [Summary (summaryForConsole (env_tie (in_env run_example))
                    (ro_startTime (report_options_of run_example))
                    (env_endTime (in_env run_example)) [] seo_example
                    (ro_filePath (report_options_of run_example)))])"
proof -
  have e: "env_formatReport (in_env run_example) = (\<lambda>bl seo ro. Inr ''report'')"
    by (simp add: run_example_def)
  show ?thesis
    unfolding generateReport_def e
    by (simp add: run_example_path run_example_write)
qed

lemma example_lines:
  "categoriesByGroup seo_example =
     [BreakdownTitle,
      GroupHeader ''performance'' (Num 5), IssueLine ''big'' (Num 3), IssueLine ''slow'' (Num 2),
      GroupHeader ''semantic'' (Num 1), IssueLine ''h1'' (Num 1)]"
  by code_simp

text \<open>
  Claim C6. Whenever \<^verbatim>\<open>generateReport\<close> writes the report and logs the summary, the
  breakdown in that summary is, for every issue registry, the title followed by one block
  per group that holds a category, the groups in the order performance, accessibility,
  metadata, crawlability, linking, technical, content, privacy, semantic. A category
  belongs to the first of the nine group names (in the order the code lists them) that it
  starts with. A block is the header of the group, with the sum of the issue counts of
  its categories, followed by one line per category of the group, each category once, with
  its issue count (the number of issue keys under it), in descending order of that count.
  A line is labelled with what stands between the first and the second \<^verbatim>\<open>: \<close> of the
  category name, or with the whole name when that is missing or empty.
\<close>

theorem breakdown_order:
  assumes "generateReport env bl seo ro (fs, lg) = Inr st" and "ro_filePath ro \<noteq> []"
  shows "\<exists>sm blocks.
      snd st = lg @ [Summary sm]
      \<and> s_categoriesByGroup sm =
          (if seo = [] then []
           else BreakdownTitle # concat (map (\<lambda>gi.
                  GroupHeader (fst gi)
                    (Num (sum_list (map (\<lambda>ci. length (snd ci))
                       (filter (\<lambda>ci. find (\<lambda>g. prefix g (fst ci))
                          [''performance'', ''accessibility'', ''metadata'', ''semantic'',
                           ''crawlability'', ''linking'', ''content'', ''privacy'', ''technical'']
                          = Some (fst gi)) seo))))
                  # map (\<lambda>i. IssueLine (case split_str '': '' (category i) of
                              _ # t # _ \<Rightarrow> if t = [] then category i else t
                            | _ \<Rightarrow> category i) (count i)) (snd gi)) blocks))
      \<and> map fst blocks =
          filter (\<lambda>g. \<exists>ci \<in> set seo. find (\<lambda>g. prefix g (fst ci))
                   [''performance'', ''accessibility'', ''metadata'', ''semantic'',
                    ''crawlability'', ''linking'', ''content'', ''privacy'', ''technical'']
                   = Some g)
            [''performance'', ''accessibility'', ''metadata'', ''crawlability'', ''linking'',
             ''technical'', ''content'', ''privacy'', ''semantic'']
      \<and> (\<forall>gi \<in> set blocks.
            sorted_wrt (\<lambda>a b. \<exists>m n. count a = Num m \<and> count b = Num n \<and> n \<le> m) (snd gi)
            \<and> mset (snd gi) =
                mset (map (\<lambda>ci. \<lparr>count = Num (length (snd ci)), category = fst ci\<rparr>)
                  (filter (\<lambda>ci. find (\<lambda>g. prefix g (fst ci))
                     [''performance'', ''accessibility'', ''metadata'', ''semantic'',
                      ''crawlability'', ''linking'', ''content'', ''privacy'', ''technical'']
                     = Some (fst gi)) seo)))"
proof -
  let ?sm = "summaryForConsole (env_tie env) (ro_startTime ro) (env_endTime env) bl seo
               (ro_filePath ro)"
  let ?blocks = "displayedGroups (sortIntoGroups (issueCategories seo))"
  have s: "snd st = lg @ [Summary ?sm]" using assms by (rule generateReport_summary)
  have c: "s_categoriesByGroup ?sm = categoriesByGroup seo" by (simp add: summaryForConsole_def)
  note b = breakdown_blocks[of seo, unfolded groupOf_literal entry_of_literal count_ge_literal
      groupDisplayOrder_def issueType_def]
  show ?thesis
    apply (rule exI[of _ ?sm])
    apply (rule exI[of _ ?blocks])
    unfolding c
    using s b by blast
qed

theorem breakdown_order_witness:
  "ro_filePath (report_options_of run_example) = ''/site/dist/site-report.log''
   \<and> snd (projr (generateReport (in_env run_example) [] seo_example
              (report_options_of run_example) (fs_example, [])))
       = [Summary (summaryForConsole (env_tie (in_env run_example))
                    (ro_startTime (report_options_of run_example))
                    (env_endTime (in_env run_example)) [] seo_example
                    (ro_filePath (report_options_of run_example)))]
   \<and> s_categoriesByGroup (summaryForConsole (env_tie (in_env run_example))
                    (ro_startTime (report_options_of run_example))
                    (env_endTime (in_env run_example)) [] seo_example
                    (ro_filePath (report_options_of run_example)))
       = [BreakdownTitle,
          GroupHeader ''performance'' (Num 5), IssueLine ''big'' (Num 3), IssueLine ''slow'' (Num 2),
          GroupHeader ''semantic'' (Num 1), IssueLine ''h1'' (Num 1)]"
proof -
  have ne: "ro_filePath (report_options_of run_example) \<noteq> []" by (simp add: run_example_path)
  from breakdown_order[OF example_report ne]
  obtain sm blocks where u: "snd (fs_example\<lparr>files := (files fs_example)([''site'', ''dist'', ''site-report.log''] \<mapsto> ''report'')\<rparr>,
          [] @ [Summary (summaryForConsole (env_tie (in_env run_example))
                    (ro_startTime (report_options_of run_example))
                    (env_endTime (in_env run_example)) [] seo_example
                    (ro_filePath (report_options_of run_example)))]) = [] @ [Summary sm]"
    by blast
  have v: "ro_filePath (report_options_of run_example) = ''/site/dist/site-report.log''
   \<and> snd (projr (generateReport (in_env run_example) [] seo_example
              (report_options_of run_example) (fs_example, [])))
       = [Summary (summaryForConsole (env_tie (in_env run_example))
                    (ro_startTime (report_options_of run_example))
                    (env_endTime (in_env run_example)) [] seo_example
                    (ro_filePath (report_options_of run_example)))]
   \<and> s_categoriesByGroup (summaryForConsole (env_tie (in_env run_example))
                    (ro_startTime (report_options_of run_example))
                    (env_endTime (in_env run_example)) [] seo_example
                    (ro_filePath (report_options_of run_example)))
       = [BreakdownTitle,
          GroupHeader ''performance'' (Num 5), IssueLine ''big'' (Num 3), IssueLine ''slow'' (Num 2),
          GroupHeader ''semantic'' (Num 1), IssueLine ''h1'' (Num 1)]"
    by (simp add: example_report run_example_path summaryForConsole_def example_lines)
  from u v show ?thesis by blast
qed

text \<open>
  Claim C10. When the registry holds a category that starts with none of the nine group
  names, the summary that \<^verbatim>\<open>generateReport\<close> logs counts its issues in the total of SEO
  issues, and its breakdown consists of the blocks that the other categories give: the
  groups are those of the other categories, and the lines of every block are exactly the
  other categories of that group, so no line stands for the category.
\<close>

theorem ungrouped_category:
  assumes "generateReport env bl (seo1 @ (c, issuesMap) # seo2) ro (fs, lg) = Inr st"
    and "ro_filePath ro \<noteq> []"
    and "\<forall>g \<in> set [''performance'', ''accessibility'', ''metadata'', ''semantic'',
             ''crawlability'', ''linking'', ''content'', ''privacy'', ''technical''].
           \<not> prefix g c"
  shows "\<exists>sm blocks.
      snd st = lg @ [Summary sm]
      \<and> s_seoIssues sm =
          (if sum_list (map (\<lambda>ci. length (snd ci)) (seo1 @ seo2)) + length issuesMap = 0
           then AllClear
           else Warn (sum_list (map (\<lambda>ci. length (snd ci)) (seo1 @ seo2)) + length issuesMap))
      \<and> s_categoriesByGroup sm =
          BreakdownTitle # concat (map (\<lambda>gi.
                  GroupHeader (fst gi)
                    (Num (sum_list (map (\<lambda>ci. length (snd ci))
                       (filter (\<lambda>ci. find (\<lambda>g. prefix g (fst ci))
                          [''performance'', ''accessibility'', ''metadata'', ''semantic'',
                           ''crawlability'', ''linking'', ''content'', ''privacy'', ''technical'']
                          = Some (fst gi)) (seo1 @ seo2)))))
                  # map (\<lambda>i. IssueLine (case split_str '': '' (category i) of
                              _ # t # _ \<Rightarrow> if t = [] then category i else t
                            | _ \<Rightarrow> category i) (count i)) (snd gi)) blocks)
      \<and> map fst blocks =
          filter (\<lambda>g. \<exists>ci \<in> set (seo1 @ seo2). find (\<lambda>g. prefix g (fst ci))
                   [''performance'', ''accessibility'', ''metadata'', ''semantic'',
                    ''crawlability'', ''linking'', ''content'', ''privacy'', ''technical'']
                   = Some g)
            [''performance'', ''accessibility'', ''metadata'', ''crawlability'', ''linking'',
             ''technical'', ''content'', ''privacy'', ''semantic'']
      \<and> (\<forall>gi \<in> set blocks.
            mset (snd gi) =
                mset (map (\<lambda>ci. \<lparr>count = Num (length (snd ci)), category = fst ci\<rparr>)
                  (filter (\<lambda>ci. find (\<lambda>g. prefix g (fst ci))
                     [''performance'', ''accessibility'', ''metadata'', ''semantic'',
                      ''crawlability'', ''linking'', ''content'', ''privacy'', ''technical'']
                     = Some (fst gi)) (seo1 @ seo2))))"
proof -
  let ?seo = "seo1 @ (c, issuesMap) # seo2"
  let ?sm = "summaryForConsole (env_tie env) (ro_startTime ro) (env_endTime env) bl ?seo
               (ro_filePath ro)"
  let ?blocks = "displayedGroups (sortIntoGroups (issueCategories ?seo))"
  have g: "groupOf c = None"
    using assms(3) unfolding groupOf_literal by simp
  have s: "snd st = lg @ [Summary ?sm]" using assms(1,2) by (rule generateReport_summary)
  have c: "s_categoriesByGroup ?sm = categoriesByGroup ?seo" by (simp add: summaryForConsole_def)
  have t: "s_seoIssues ?sm =
          (if sum_list (map (\<lambda>ci. length (snd ci)) (seo1 @ seo2)) + length issuesMap = 0
           then AllClear
           else Warn (sum_list (map (\<lambda>ci. length (snd ci)) (seo1 @ seo2)) + length issuesMap))"
  proof -
    have "totalSeoIssues ?seo =
            sum_list (map (\<lambda>ci. length (snd ci)) (seo1 @ seo2)) + length issuesMap"
      by (simp add: totalSeoIssues_sum Map_size_def)
    then show ?thesis
      unfolding summaryForConsole_def count_line_of_def by (simp del: sum_list_eq_0_iff map_append)
  qed
  note bb = breakdown_blocks[of ?seo]
  have b1: "map fst ?blocks =
      filter (\<lambda>g. \<exists>ci \<in> set (seo1 @ seo2). groupOf (fst ci) = Some g) groupDisplayOrder"
    using bb(1) by (simp add: g)
  have b2: "\<forall>gi \<in> set ?blocks. mset (snd gi) =
      mset (map entry_of (filter (\<lambda>ci. groupOf (fst ci) = Some (fst gi)) (seo1 @ seo2)))"
    using bb(2) by (simp add: g)
  have b3: "categoriesByGroup ?seo =
      BreakdownTitle # concat (map (\<lambda>gi.
          GroupHeader (fst gi)
            (Num (sum_list (map (\<lambda>ci. length (snd ci))
                   (filter (\<lambda>ci. groupOf (fst ci) = Some (fst gi)) (seo1 @ seo2)))))
          # map (\<lambda>i. IssueLine (issueType (category i)) (count i)) (snd gi)) ?blocks)"
    using bb(3) by (simp add: g)
  note b = b1[unfolded groupOf_literal groupDisplayOrder_def]
    b2[unfolded groupOf_literal entry_of_literal] b3[unfolded groupOf_literal issueType_def]
  show ?thesis
    apply (rule exI[of _ ?sm])
    apply (rule exI[of _ ?blocks])
    unfolding c
    using s t b by blast
qed

theorem ungrouped_category_witness:
  "ro_filePath (report_options_of run_example) = ''/site/dist/site-report.log''
   \<and> \<not> prefix ''performance'' ''weird'' \<and> \<not> prefix ''technical'' ''weird''
   \<and> s_seoIssues (summaryForConsole (env_tie (in_env run_example))
                    (ro_startTime (report_options_of run_example))
                    (env_endTime (in_env run_example)) [] seo_example
                    (ro_filePath (report_options_of run_example))) = Warn 8
   \<and> s_categoriesByGroup (summaryForConsole (env_tie (in_env run_example))
                    (ro_startTime (report_options_of run_example))
                    (env_endTime (in_env run_example)) [] seo_example
                    (ro_filePath (report_options_of run_example)))
       = [BreakdownTitle,
          GroupHeader ''performance'' (Num 5), IssueLine ''big'' (Num 3), IssueLine ''slow'' (Num 2),
          GroupHeader ''semantic'' (Num 1), IssueLine ''h1'' (Num 1)]"
proof -
  have ne: "ro_filePath (report_options_of run_example) \<noteq> []" by (simp add: run_example_path)
  have h3: "\<forall>g \<in> set [''performance'', ''accessibility'', ''metadata'', ''semantic'',
             ''crawlability'', ''linking'', ''content'', ''privacy'', ''technical''].
           \<not> prefix g ''weird''"
    by simp
  have tot: "totalSeoIssues seo_example = 8" by (simp add: totalSeoIssues_def seo_example_def Map_size_def)
  from ungrouped_category[OF example_report[unfolded seo_example_split] ne h3]
  obtain sm blocks where u: "snd (fs_example\<lparr>files := (files fs_example)([''site'', ''dist'', ''site-report.log''] \<mapsto> ''report'')\<rparr>,
          [] @ [Summary (summaryForConsole (env_tie (in_env run_example))
                    (ro_startTime (report_options_of run_example))
                    (env_endTime (in_env run_example)) []
                    ([(''semantic: h1'', [(''a'', [''/x''])]),
                      (''performance: slow'', [(''a'', [''/x'']), (''b'', [''/x''])])]
                     @ (''weird'', [(''a'', [''/x'']), (''d'', [''/x'', ''/y''])])
                     # [(''performance: big'', [(''a'', [''/x'']), (''b'', [''/x'']), (''c'', [''/y''])])])
                    (ro_filePath (report_options_of run_example)))]) = [] @ [Summary sm]"
    by blast
  have v: "ro_filePath (report_options_of run_example) = ''/site/dist/site-report.log''
   \<and> \<not> prefix ''performance'' ''weird'' \<and> \<not> prefix ''technical'' ''weird''
   \<and> s_seoIssues (summaryForConsole (env_tie (in_env run_example))
                    (ro_startTime (report_options_of run_example))
                    (env_endTime (in_env run_example)) [] seo_example
                    (ro_filePath (report_options_of run_example))) = Warn 8
   \<and> s_categoriesByGroup (summaryForConsole (env_tie (in_env run_example))
                    (ro_startTime (report_options_of run_example))
                    (env_endTime (in_env run_example)) [] seo_example
                    (ro_filePath (report_options_of run_example)))
       = [BreakdownTitle,
          GroupHeader ''performance'' (Num 5), IssueLine ''big'' (Num 3), IssueLine ''slow'' (Num 2),
          GroupHeader ''semantic'' (Num 1), IssueLine ''h1'' (Num 1)]"
    by (simp add: run_example_path summaryForConsole_def example_lines tot count_line_of_def)
  from u v show ?thesis by blast
qed

end
